theory Spec2Isabelle
  imports Complex_Main "HOL-Library.AList"
begin

section \<open>Data model\<close>

text \<open>
  The program of \<^verbatim>\<open>main.py\<close> works on decoded JSON. A price is a finite Python number (an
  \<^verbatim>\<open>int\<close> or a float), modelled by its exact value, a real. Exceptions are values of
  \<open>py_error\<close>.
\<close>

datatype py_error = KeyError string | ZeroDivisionError | ValueError | OverflowError

record outcome =
  name :: string
  price :: real

record market =
  outcomes :: "outcome list"

record bookmaker =
  title :: string
  markets :: "market list"

text \<open>
  The event payload handed to \<^verbatim>\<open>Match.__init__\<close>: a dictionary in which each of the four
  fields may be absent (\<open>None\<close> is an absent key).
\<close>

record match_data =
  home_team_field :: "string option"
  away_team_field :: "string option"
  commence_time_field :: "string option"
  bookmakers_field :: "bookmaker list option"

record Match =
  home_team :: string
  away_team :: string
  commence_time :: string
  bookmakers :: "bookmaker list"

text \<open>
  A Python \<^verbatim>\<open>dict\<close> keeps its keys in insertion order, and assigning to a key that is
  already present keeps the key's position. The best-odds dictionary is therefore an
  association list: \<open>map_of\<close> reads a key, \<open>AList.update\<close> assigns to one.
\<close>

type_synonym best_odds = "(string \<times> (real \<times> string)) list"

record opportunity =
  opp_outcome :: string
  opp_stake :: real
  opp_price :: real
  opp_bookmaker :: string

record arb_result =
  total_prob :: real
  is_arbitrage :: bool
  opportunities :: "opportunity list"
  guaranteed_profit :: real

section \<open>Match\<close>

text \<open>
  \<^verbatim>\<open>Match.__init__\<close>: four subscriptions in source order; the first absent key raises
  \<^verbatim>\<open>KeyError\<close> carrying that key, and no object is constructed.
\<close>

definition Match_init :: "match_data \<Rightarrow> py_error + Match" where
  "Match_init d =
     (case home_team_field d of
        None \<Rightarrow> Inl (KeyError ''home_team'')
      | Some h \<Rightarrow>
     (case away_team_field d of
        None \<Rightarrow> Inl (KeyError ''away_team'')
      | Some a \<Rightarrow>
     (case commence_time_field d of
        None \<Rightarrow> Inl (KeyError ''commence_time'')
      | Some c \<Rightarrow>
     (case bookmakers_field d of
        None \<Rightarrow> Inl (KeyError ''bookmakers'')
      | Some bs \<Rightarrow>
          Inr \<lparr>home_team = h, away_team = a, commence_time = c, bookmakers = bs\<rparr>))))"

text \<open>
  The body of the inner loop of \<^verbatim>\<open>get_best_odds\<close>:
  \<^verbatim>\<open>if name not in best_odds or price > best_odds[name][0]: best_odds[name] = (price, bookmaker_name)\<close>
\<close>

definition record_outcome :: "string \<Rightarrow> best_odds \<Rightarrow> outcome \<Rightarrow> best_odds" where
  "record_outcome bookmaker_name best oc =
     (case map_of best (name oc) of
        None \<Rightarrow> AList.update (name oc) (price oc, bookmaker_name) best
      | Some rec \<Rightarrow>
          if price oc > fst rec
          then AList.update (name oc) (price oc, bookmaker_name) best
          else best)"

text \<open>
  The body of the outer loop: \<^verbatim>\<open>bookmaker["markets"][0]\<close> raises \<^verbatim>\<open>IndexError\<close> on an empty
  market list, which is caught and skips the bookmaker; otherwise the outcomes of the first
  market are scanned in order.
\<close>

definition scan_bookmaker :: "best_odds \<Rightarrow> bookmaker \<Rightarrow> best_odds" where
  "scan_bookmaker best b =
     (case markets b of
        [] \<Rightarrow> best
      | m # _ \<Rightarrow> foldl (record_outcome (title b)) best (outcomes m))"

definition get_best_odds :: "Match \<Rightarrow> best_odds" where
  "get_best_odds m = foldl scan_bookmaker [] (bookmakers m)"
section \<open>ArbitrageCalculator\<close>

text \<open>
  \<^verbatim>\<open>evaluate\<close> computes with Python floats. The results of the float operations it uses are
  parameters of the model, so that what is proved of \<open>evaluate\<close> holds whatever the rounding
  of the interpreter is: \<open>f_div\<close> is \<^verbatim>\<open>/\<close> with a divisor other than zero, \<open>f_sum\<close> is
  \<^verbatim>\<open>sum\<close> of a list of floats, \<open>f_mul\<close> and \<open>f_sub\<close> are \<^verbatim>\<open>*\<close> and \<^verbatim>\<open>-\<close> of a float and a
  float, \<open>f_round\<close> is \<^verbatim>\<open>round(x, ndigits)\<close>, and \<open>f_of_price\<close> is the conversion of a price
  to a float that \<^verbatim>\<open>stake * price\<close> performs first (a price decoded from JSON may be an
  \<^verbatim>\<open>int\<close>, and an \<^verbatim>\<open>int\<close> beyond the float range raises \<^verbatim>\<open>OverflowError\<close>). The total
  stake is a float. Values are finite: a run in which a float operation overflows to
  \<^verbatim>\<open>inf\<close> is outside the model. Comparisons of finite numbers are exact in Python, so
  \<open><\<close> and the test for a zero divisor are those of the reals.
\<close>

record arith =
  f_div :: "real \<Rightarrow> real \<Rightarrow> real"
  f_sum :: "real list \<Rightarrow> real"
  f_mul :: "real \<Rightarrow> real \<Rightarrow> real"
  f_sub :: "real \<Rightarrow> real \<Rightarrow> real"
  f_round :: "real \<Rightarrow> nat \<Rightarrow> real"
  f_of_price :: "real \<Rightarrow> py_error + real"

text \<open>Python's true division: a zero divisor raises.\<close>

definition py_div :: "arith \<Rightarrow> real \<Rightarrow> real \<Rightarrow> py_error + real" where
  "py_div A a b = (if b = 0 then Inl ZeroDivisionError else Inr (f_div A a b))"

text \<open>
  A list comprehension whose element expression may raise: elements are computed left to
  right and the first exception ends the comprehension.
\<close>

fun comprehension :: "('a \<Rightarrow> py_error + 'b) \<Rightarrow> 'a list \<Rightarrow> py_error + 'b list" where
  "comprehension f [] = Inr []"
| "comprehension f (x # xs) =
     (case f x of
        Inl e \<Rightarrow> Inl e
      | Inr y \<Rightarrow> (case comprehension f xs of Inl e \<Rightarrow> Inl e | Inr ys \<Rightarrow> Inr (y # ys)))"

text \<open>\<^verbatim>\<open>best_odds.values()\<close> and \<^verbatim>\<open>best_odds.keys()\<close>, in insertion order.\<close>

definition dict_values :: "best_odds \<Rightarrow> (real \<times> string) list" where
  "dict_values best = map snd best"

definition dict_keys :: "best_odds \<Rightarrow> string list" where
  "dict_keys best = map fst best"

text \<open>\<^verbatim>\<open>probabilities = [1 / price for price, _ in best_odds.values()]\<close>\<close>

definition probabilities :: "arith \<Rightarrow> best_odds \<Rightarrow> py_error + real list" where
  "probabilities A best = comprehension (\<lambda>(p, _). py_div A 1 p) (dict_values best)"

text \<open>
  \<^verbatim>\<open>strokes = [(1 / price) / total_prob * self.total_stake for price, _ in best_odds.values()]\<close>
\<close>

definition stroke :: "arith \<Rightarrow> real \<Rightarrow> real \<Rightarrow> real \<times> string \<Rightarrow> py_error + real" where
  "stroke A total_stake tp v =
     (case py_div A 1 (fst v) of
        Inl e \<Rightarrow> Inl e
      | Inr q \<Rightarrow>
          (case py_div A q tp of Inl e \<Rightarrow> Inl e | Inr s \<Rightarrow> Inr (f_mul A s total_stake)))"

definition strokes :: "arith \<Rightarrow> real \<Rightarrow> real \<Rightarrow> best_odds \<Rightarrow> py_error + real list" where
  "strokes A total_stake tp best = comprehension (stroke A total_stake tp) (dict_values best)"

text \<open>
  The entries appended to \<^verbatim>\<open>result["opportunities"]\<close> by the loop over
  \<^verbatim>\<open>zip(best_odds.keys(), strokes, best_odds.values())\<close>.
\<close>

definition make_opportunities :: "arith \<Rightarrow> best_odds \<Rightarrow> real list \<Rightarrow> opportunity list" where
  "make_opportunities A best sts =
     map (\<lambda>(outcome_name, stake, (p, bk)).
            \<lparr>opp_outcome = outcome_name, opp_stake = f_round A stake 2,
             opp_price = p, opp_bookmaker = bk\<rparr>)
         (zip (dict_keys best) (zip sts (dict_values best)))"

text \<open>
  \<^verbatim>\<open>stake * price\<close>, and the generator
  \<^verbatim>\<open>stake * price for stake, (price, _) in zip(strokes, best_odds.values())\<close> consumed by
  \<^verbatim>\<open>min\<close>, which raises \<^verbatim>\<open>ValueError\<close> on an empty sequence and otherwise keeps the first
  of the least elements.
\<close>

definition stake_times_price :: "arith \<Rightarrow> real \<Rightarrow> real \<Rightarrow> py_error + real" where
  "stake_times_price A stake p =
     (case f_of_price A p of Inl e \<Rightarrow> Inl e | Inr pf \<Rightarrow> Inr (f_mul A stake pf))"

definition returns :: "arith \<Rightarrow> real list \<Rightarrow> best_odds \<Rightarrow> py_error + real list" where
  "returns A sts best =
     comprehension (\<lambda>(stake, (p, _)). stake_times_price A stake p) (zip sts (dict_values best))"

fun py_min :: "real list \<Rightarrow> py_error + real" where
  "py_min [] = Inl ValueError"
| "py_min (x # xs) = Inr (foldl (\<lambda>m y. if y < m then y else m) x xs)"

text \<open>
  \<^verbatim>\<open>ArbitrageCalculator.evaluate\<close>, with the interpreter's arithmetic and
  \<^verbatim>\<open>self.total_stake\<close> as its first arguments. The result is \<open>Inr None\<close> for Python's
  \<^verbatim>\<open>None\<close>, \<open>Inr (Some r)\<close> for a result dictionary and \<open>Inl e\<close> for a raised exception.
\<close>

definition evaluate :: "arith \<Rightarrow> real \<Rightarrow> best_odds \<Rightarrow> py_error + arb_result option" where
  "evaluate A total_stake best =
     (if best = [] then Inr None
      else
        (case probabilities A best of
           Inl e \<Rightarrow> Inl e
         | Inr probs \<Rightarrow>
             let tp = f_sum A probs;
                 result = \<lparr>total_prob = f_round A tp 4, is_arbitrage = tp < 1,
                           opportunities = [], guaranteed_profit = 0\<rparr>
             in if is_arbitrage result
                then
                  (case strokes A total_stake tp best of
                     Inl e \<Rightarrow> Inl e
                   | Inr sts \<Rightarrow>
                       (case returns A sts best of
                          Inl e \<Rightarrow> Inl e
                        | Inr rets \<Rightarrow>
                            (case py_min rets of
                               Inl e \<Rightarrow> Inl e
                             | Inr min_return \<Rightarrow>
                                 Inr (Some (result
                                   \<lparr>opportunities := make_opportunities A best sts,
                                    guaranteed_profit :=
                                      f_round A (f_sub A min_return total_stake) 2\<rparr>)))))
                else Inr (Some result)))"

section \<open>Binary64 arithmetic\<close>

text \<open>
  The arithmetic of CPython on IEEE 754 binary64, for results in the normal range: every
  operation returns the float nearest to the exact result, a tie going to the float with an
  even significand. \<open>binade x\<close> is the exponent \<open>e\<close> with \<open>2 ^ e \<le> x < 2 ^ (e + 1)\<close>, and
  \<open>rnd53\<close> rounds to 53 significant bits.
\<close>

definition round_half_even :: "real \<Rightarrow> int" where
  "round_half_even x =
     (let f = \<lfloor>x\<rfloor>; d = x - of_int f
      in if d < 1 / 2 then f
         else if 1 / 2 < d then f + 1
         else if even f then f else f + 1)"

function bit_length :: "nat \<Rightarrow> nat" where
  "bit_length n = (if n = 0 then 0 else Suc (bit_length (n div 2)))"
  by pat_completeness auto
termination by (relation "measure id") auto

declare bit_length.simps [simp del]

definition binade :: "real \<Rightarrow> int" where
  "binade x =
     (if 1 \<le> x then int (bit_length (nat \<lfloor>x\<rfloor>)) - 1
      else - int (bit_length (nat (\<lceil>1 / x\<rceil> - 1))))"

definition rnd53 :: "real \<Rightarrow> real" where
  "rnd53 x =
     (if x = 0 then 0
      else let k = 52 - binade \<bar>x\<bar>
           in of_int (round_half_even (x * 2 powi k)) / 2 powi k)"

text \<open>
  \<^verbatim>\<open>round(x, ndigits)\<close> of a float: the decimal with \<open>ndigits\<close> places nearest to the exact
  value of \<open>x\<close>, a tie going to the even one, and then the float nearest to that decimal.
\<close>

definition py_round :: "real \<Rightarrow> nat \<Rightarrow> real" where
  "py_round x ndigits = of_int (round_half_even (x * 10 ^ ndigits)) / 10 ^ ndigits"

text \<open>
  \<^verbatim>\<open>sum\<close> starts from the integer 0 and adds the elements from left to right (CPython up
  to 3.11; later versions compensate the rounding errors, which makes no difference for
  two elements).
\<close>

definition float_sum :: "real list \<Rightarrow> real" where
  "float_sum xs = foldl (\<lambda>a x. rnd53 (a + x)) 0 xs"

text \<open>The greatest float, and the conversion of an \<^verbatim>\<open>int\<close> or float to a float.\<close>

definition max_float :: real where
  "max_float = (2 ^ 53 - 1) * 2 ^ 971"

definition to_float :: "real \<Rightarrow> py_error + real" where
  "to_float p = (if \<bar>rnd53 p\<bar> \<le> max_float then Inr (rnd53 p) else Inl OverflowError)"

definition double_arith :: arith where
  "double_arith =
     \<lparr>f_div = (\<lambda>x y. rnd53 (x / y)), f_sum = float_sum,
      f_mul = (\<lambda>x y. rnd53 (x * y)), f_sub = (\<lambda>x y. rnd53 (x - y)),
      f_round = (\<lambda>x n. rnd53 (py_round x n)), f_of_price = to_float\<rparr>"

section \<open>Specified quantities\<close>

text \<open>
  The quantities the specification names, written from its words with the interpreter's
  operations, to be compared with what \<open>evaluate\<close> computes: the implied probability of an
  outcome is \<open>1 / price\<close>; the aggregate implied probability is their sum; the stake of an
  outcome is its implied probability divided by the aggregate, times the total stake; the
  return of an outcome is its stake times its price.
\<close>

definition implied_probs :: "arith \<Rightarrow> best_odds \<Rightarrow> real list" where
  "implied_probs A best = map (\<lambda>v. f_div A 1 (fst v)) (dict_values best)"

definition implied_sum :: "arith \<Rightarrow> best_odds \<Rightarrow> real" where
  "implied_sum A best = f_sum A (implied_probs A best)"

definition unrounded_stake :: "arith \<Rightarrow> real \<Rightarrow> best_odds \<Rightarrow> real \<times> string \<Rightarrow> real" where
  "unrounded_stake A total_stake best v =
     f_mul A (f_div A (f_div A 1 (fst v)) (implied_sum A best)) total_stake"

definition unrounded_stakes :: "arith \<Rightarrow> real \<Rightarrow> best_odds \<Rightarrow> real list" where
  "unrounded_stakes A total_stake best =
     map (unrounded_stake A total_stake best) (dict_values best)"

text \<open>The prices as floats, when all of them convert.\<close>

definition float_prices :: "arith \<Rightarrow> best_odds \<Rightarrow> py_error + real list" where
  "float_prices A best = comprehension (\<lambda>v. f_of_price A (fst v)) (dict_values best)"

definition outcome_returns :: "arith \<Rightarrow> real \<Rightarrow> best_odds \<Rightarrow> real list \<Rightarrow> real list" where
  "outcome_returns A total_stake best ps = map2 (f_mul A) (unrounded_stakes A total_stake best) ps"

definition no_arbitrage_result :: "arith \<Rightarrow> best_odds \<Rightarrow> arb_result" where
  "no_arbitrage_result A best =
     \<lparr>total_prob = f_round A (implied_sum A best) 4, is_arbitrage = False,
      opportunities = [], guaranteed_profit = 0\<rparr>"

definition arbitrage_result :: "arith \<Rightarrow> real \<Rightarrow> best_odds \<Rightarrow> real list \<Rightarrow> arb_result" where
  "arbitrage_result A total_stake best ps =
     \<lparr>total_prob = f_round A (implied_sum A best) 4, is_arbitrage = True,
      opportunities = make_opportunities A best (unrounded_stakes A total_stake best),
      guaranteed_profit =
        f_round A (f_sub A (Min (set (outcome_returns A total_stake best ps))) total_stake) 2\<rparr>"

text \<open>
  The profit as it would be if the first return were taken instead of the least, and if
  the stakes rounded for reporting were used; they are compared with the profit
  \<open>evaluate\<close> reports on an example.
\<close>

definition first_return_profit :: "arith \<Rightarrow> real \<Rightarrow> best_odds \<Rightarrow> real list \<Rightarrow> real" where
  "first_return_profit A total_stake best ps =
     f_round A (f_sub A (hd (outcome_returns A total_stake best ps)) total_stake) 2"

definition rounded_stake_profit :: "arith \<Rightarrow> real \<Rightarrow> best_odds \<Rightarrow> real list \<Rightarrow> real" where
  "rounded_stake_profit A total_stake best ps =
     f_round A
       (f_sub A
          (Min (set (map2 (f_mul A)
                       (map (\<lambda>s. f_round A s 2) (unrounded_stakes A total_stake best)) ps)))
          total_stake) 2"

text \<open>
  An arithmetic is accurate to \<open>u\<close> when each operation returns its exact result with a
  relative error of at most \<open>u\<close>, a sum of numbers that are not negative is not negative,
  and rounding to decimal places keeps the sign of the rounded decimal. Binary64 arithmetic
  is accurate to \<open>2 ^ - 53\<close>.
\<close>

definition accurate :: "arith \<Rightarrow> real \<Rightarrow> bool" where
  "accurate A u \<longleftrightarrow>
     (\<forall>x y. y \<noteq> 0 \<longrightarrow> \<bar>f_div A x y - x / y\<bar> \<le> u * \<bar>x / y\<bar>) \<and>
     (\<forall>x y. \<bar>f_mul A x y - x * y\<bar> \<le> u * \<bar>x * y\<bar>) \<and>
     (\<forall>x y. \<bar>f_sub A x y - (x - y)\<bar> \<le> u * \<bar>x - y\<bar>) \<and>
     (\<forall>p pf. f_of_price A p = Inr pf \<longrightarrow> \<bar>pf - p\<bar> \<le> u * \<bar>p\<bar>) \<and>
     (\<forall>xs. (\<forall>x\<in>set xs. 0 \<le> x) \<longrightarrow> 0 \<le> f_sum A xs) \<and>
     (\<forall>x n. 0 \<le> py_round x n \<longrightarrow> 0 \<le> f_round A x n)"

text \<open>
  The sum of the implied probabilities is accurate to \<open>g\<close> when it differs from their exact
  sum by at most \<open>g\<close> times the sum of their magnitudes.
\<close>

definition sum_accurate :: "arith \<Rightarrow> real \<Rightarrow> best_odds \<Rightarrow> bool" where
  "sum_accurate A g best \<longleftrightarrow>
     \<bar>implied_sum A best - sum_list (implied_probs A best)\<bar>
       \<le> g * (\<Sum>q\<leftarrow>implied_probs A best. \<bar>q\<bar>)"

text \<open>
  The fields of a payload that are absent, in the order \<open>Match_init\<close> reads them.
\<close>

definition missing_fields :: "match_data \<Rightarrow> string list" where
  "missing_fields d =
     (if home_team_field d = None then [''home_team''] else []) @
     (if away_team_field d = None then [''away_team''] else []) @
     (if commence_time_field d = None then [''commence_time''] else []) @
     (if bookmakers_field d = None then [''bookmakers''] else [])"

text \<open>
  A best-odds mapping with the prices 5 and 27, and the result \<open>evaluate\<close> returns for it
  in binary64 arithmetic with a total stake of 100: an implied-probability sum of 0.237,
  stakes of 84.38 and 15.62, and a profit of 321.87.
\<close>

definition example_odds :: best_odds where
  "example_odds = [(''Home'', (5, ''BookA'')), (''Away'', (27, ''BookB''))]"

definition example_result :: arb_result where
  "example_result =
     \<lparr>total_prob = rnd53 (237 / 1000), is_arbitrage = True,
      opportunities =
        [\<lparr>opp_outcome = ''Home'', opp_stake = rnd53 (8438 / 100), opp_price = 5,
          opp_bookmaker = ''BookA''\<rparr>,
         \<lparr>opp_outcome = ''Away'', opp_stake = rnd53 (1562 / 100), opp_price = 27,
          opp_bookmaker = ''BookB''\<rparr>],
      guaranteed_profit = rnd53 (32187 / 100)\<rparr>"

text \<open>
  What a snapshot quotes: the outcomes of a bookmaker's first market (none when it has no
  market), and the prices it quotes there for an outcome name.
\<close>

definition first_market_outcomes :: "bookmaker \<Rightarrow> outcome list" where
  "first_market_outcomes b = (case markets b of [] \<Rightarrow> [] | m # _ \<Rightarrow> outcomes m)"

definition prices_named :: "string \<Rightarrow> outcome list \<Rightarrow> real list" where
  "prices_named n ocs = map price (filter (\<lambda>oc. name oc = n) ocs)"

definition quoted :: "bookmaker \<Rightarrow> string \<Rightarrow> real list" where
  "quoted b n = prices_named n (first_market_outcomes b)"

text \<open>
  A match in which two bookmakers tie at the best price for each outcome: BookA and BookC
  quote 3 for Away, BookC and BookD quote 5/2 for Home; BookB has no market.
\<close>

definition tie_match :: Match where
  "tie_match =
     \<lparr>home_team = ''Arsenal'', away_team = ''Chelsea'', commence_time = ''2024-01-01T15:00:00Z'',
      bookmakers =
        [\<lparr>title = ''BookA'', markets = [\<lparr>outcomes = [\<lparr>name = ''Home'', price = 2\<rparr>, \<lparr>name = ''Away'', price = 3\<rparr>]\<rparr>]\<rparr>,
         \<lparr>title = ''BookB'', markets = []\<rparr>,
         \<lparr>title = ''BookC'', markets = [\<lparr>outcomes = [\<lparr>name = ''Away'', price = 3\<rparr>, \<lparr>name = ''Home'', price = 5 / 2\<rparr>]\<rparr>]\<rparr>,
         \<lparr>title = ''BookD'', markets = [\<lparr>outcomes = [\<lparr>name = ''Home'', price = 5 / 2\<rparr>, \<lparr>name = ''Away'', price = 14 / 5\<rparr>]\<rparr>]\<rparr>]\<rparr>"


section \<open>What evaluate computes\<close>

lemma comprehension_div:
  "comprehension (\<lambda>(p, _). py_div A a p) vs =
     (if \<exists>v\<in>set vs. fst v = 0 then Inl ZeroDivisionError
      else Inr (map (\<lambda>v. f_div A a (fst v)) vs))"
proof (induction vs)
  case Nil
  show ?case by simp
next
  case (Cons v vs)
  show ?case
  proof (cases "fst v = 0")
    case True
    then show ?thesis by (simp add: py_div_def split_beta)
  next
    case False
    then show ?thesis using Cons.IH by (simp add: py_div_def split_beta)
  qed
qed

lemma comprehension_stroke:
  "comprehension (stroke A S tp) vs =
     (if vs = [] then Inr []
      else if (\<exists>v\<in>set vs. fst v = 0) \<or> tp = 0 then Inl ZeroDivisionError
      else Inr (map (\<lambda>v. f_mul A (f_div A (f_div A 1 (fst v)) tp) S) vs))"
proof (induction vs)
  case Nil
  show ?case by simp
next
  case (Cons v vs)
  show ?case
  proof (cases "fst v = 0 \<or> tp = 0")
    case True
    then show ?thesis by (auto simp add: stroke_def py_div_def)
  next
    case False
    then show ?thesis using Cons.IH by (cases "vs = []") (simp_all add: stroke_def py_div_def)
  qed
qed

lemma comprehension_returns:
  "length sts = length vs \<Longrightarrow>
   comprehension (\<lambda>(stake, (p, _)). stake_times_price A stake p) (zip sts vs) =
     (case comprehension (\<lambda>v. f_of_price A (fst v)) vs of
        Inl e \<Rightarrow> Inl e
      | Inr ps \<Rightarrow> Inr (map2 (f_mul A) sts ps))"
proof (induction vs arbitrary: sts)
  case Nil
  then show ?case by simp
next
  case (Cons v vs)
  then obtain s rest where sts: "sts = s # rest" and len: "length rest = length vs"
    by (cases sts) auto
  show ?case
    unfolding sts using Cons.IH [OF len]
    by (simp add: stake_times_price_def split_beta split: sum.split)
qed

lemma comprehension_length:
  "comprehension f xs = Inr ys \<Longrightarrow> length ys = length xs"
proof (induction xs arbitrary: ys)
  case Nil
  then show ?case by simp
next
  case (Cons x xs)
  then show ?case by (auto split: sum.splits)
qed


lemma probabilities_eq:
  "probabilities A best =
     (if \<exists>v\<in>set (dict_values best). fst v = 0 then Inl ZeroDivisionError
      else Inr (implied_probs A best))"
  unfolding probabilities_def implied_probs_def by (rule comprehension_div)

lemma strokes_eq:
  assumes "best \<noteq> []" and "\<forall>v\<in>set (dict_values best). fst v \<noteq> 0"
  shows "strokes A S (implied_sum A best) best =
     (if implied_sum A best = 0 then Inl ZeroDivisionError
      else Inr (unrounded_stakes A S best))"
proof -
  have "dict_values best \<noteq> []" using assms(1) by (simp add: dict_values_def)
  then show ?thesis
    using assms(2)
    by (simp add: strokes_def comprehension_stroke unrounded_stakes_def unrounded_stake_def)
qed

lemma length_unrounded_stakes: "length (unrounded_stakes A S best) = length (dict_values best)"
  by (simp add: unrounded_stakes_def)

lemma returns_eq:
  "returns A (unrounded_stakes A S best) best =
     (case float_prices A best of
        Inl e \<Rightarrow> Inl e
      | Inr ps \<Rightarrow> Inr (outcome_returns A S best ps))"
  unfolding returns_def float_prices_def outcome_returns_def
  by (rule comprehension_returns [OF length_unrounded_stakes])

lemma foldl_py_min: "foldl (\<lambda>m y. if y < m then y else m) (x::real) xs = fold min xs x"
proof (induction xs arbitrary: x)
  case Nil
  show ?case by simp
next
  case (Cons y ys)
  have "(if y < x then y else x) = min y x" by (simp add: min_def)
  then show ?case using Cons.IH by simp
qed

lemma py_min_eq: "xs \<noteq> [] \<Longrightarrow> py_min xs = Inr (Min (set xs))"
proof (cases xs)
  case Nil
  assume "xs \<noteq> []"
  with Nil show ?thesis by simp
next
  case (Cons x ys)
  have "foldl (\<lambda>m y. if y < m then y else m) x ys = Min (set (x # ys))"
    by (simp only: foldl_py_min Min.set_eq_fold)
  with Cons show ?thesis by simp
qed

lemma outcome_returns_nonempty:
  assumes "best \<noteq> []" and "float_prices A best = Inr ps"
  shows "outcome_returns A S best ps \<noteq> []"
proof -
  have "length ps = length (dict_values best)"
    using assms(2) unfolding float_prices_def by (rule comprehension_length)
  then have "length (outcome_returns A S best ps) = length best"
    by (simp add: outcome_returns_def length_unrounded_stakes dict_values_def)
  with assms(1) show ?thesis by auto
qed

lemma evaluate_cases:
  "evaluate A S best =
     (if best = [] then Inr None
      else if \<exists>v\<in>set (dict_values best). fst v = 0 then Inl ZeroDivisionError
      else if \<not> implied_sum A best < 1 then Inr (Some (no_arbitrage_result A best))
      else if implied_sum A best = 0 then Inl ZeroDivisionError
      else (case float_prices A best of
              Inl e \<Rightarrow> Inl e
            | Inr ps \<Rightarrow> Inr (Some (arbitrage_result A S best ps))))"
proof (cases "best = []")
  case True
  then show ?thesis by (simp add: evaluate_def)
next
  case ne: False
  show ?thesis
  proof (cases "\<exists>v\<in>set (dict_values best). fst v = 0")
    case True
    then show ?thesis using ne by (simp add: evaluate_def probabilities_eq)
  next
    case nz: False
    then have nz': "\<forall>v\<in>set (dict_values best). fst v \<noteq> 0" by blast
    have p: "probabilities A best = Inr (implied_probs A best)"
      using nz by (simp add: probabilities_eq)
    have tp: "f_sum A (implied_probs A best) = implied_sum A best"
      by (simp add: implied_sum_def)
    show ?thesis
    proof (cases "implied_sum A best < 1")
      case False
      then show ?thesis using ne nz
        by (simp add: evaluate_def p tp no_arbitrage_result_def)
    next
      case lt: True
      show ?thesis
      proof (cases "implied_sum A best = 0")
        case True
        then show ?thesis using ne nz lt strokes_eq [OF ne nz', of A S]
          by (simp add: evaluate_def p tp)
      next
        case t0: False
        show ?thesis
        proof (cases "float_prices A best")
          case (Inl e)
          then show ?thesis using ne nz lt t0 strokes_eq [OF ne nz', of A S]
            by (simp add: evaluate_def p tp returns_eq)
        next
          case (Inr ps)
          from py_min_eq [OF outcome_returns_nonempty [OF ne Inr, of S]]
          have "py_min (outcome_returns A S best ps)
                  = Inr (Min (set (outcome_returns A S best ps)))" .
          then show ?thesis using Inr ne nz lt t0 strokes_eq [OF ne nz', of A S]
            by (simp add: evaluate_def p tp returns_eq arbitrage_result_def)
        qed
      qed
    qed
  qed
qed

lemma evaluate_SomeD:
  assumes "evaluate A S best = Inr (Some r)"
  shows "best \<noteq> []" and "\<forall>v\<in>set (dict_values best). fst v \<noteq> 0"
    and "implied_sum A best < 1 \<Longrightarrow>
           implied_sum A best \<noteq> 0 \<and>
           (\<exists>ps. float_prices A best = Inr ps \<and> r = arbitrage_result A S best ps)"
    and "\<not> implied_sum A best < 1 \<Longrightarrow> r = no_arbitrage_result A best"
proof -
  show ne: "best \<noteq> []"
    using assms by (auto simp: evaluate_cases)
  show nz: "\<forall>v\<in>set (dict_values best). fst v \<noteq> 0"
  proof (rule ccontr)
    assume "\<not> (\<forall>v\<in>set (dict_values best). fst v \<noteq> 0)"
    then have "\<exists>v\<in>set (dict_values best). fst v = 0" by blast
    then have "evaluate A S best = Inl ZeroDivisionError"
      using ne by (simp add: evaluate_cases)
    with assms show False by simp
  qed
  then have nz': "\<not> (\<exists>v\<in>set (dict_values best). fst v = 0)" by blast
  show "implied_sum A best \<noteq> 0 \<and>
        (\<exists>ps. float_prices A best = Inr ps \<and> r = arbitrage_result A S best ps)"
    if lt: "implied_sum A best < 1"
  proof (cases "implied_sum A best = 0")
    case True
    then have "evaluate A S best = Inl ZeroDivisionError"
      using ne nz' by (simp add: evaluate_cases)
    with assms show ?thesis by simp
  next
    case t0: False
    show ?thesis
    proof (cases "float_prices A best")
      case (Inl e)
      then have "evaluate A S best = Inl e"
        using ne nz' lt t0 by (simp add: evaluate_cases)
      with assms show ?thesis by simp
    next
      case (Inr ps)
      then have "evaluate A S best = Inr (Some (arbitrage_result A S best ps))"
        using ne nz' lt t0 by (simp add: evaluate_cases)
      with assms t0 Inr show ?thesis by simp
    qed
  qed
  show "r = no_arbitrage_result A best" if ge: "\<not> implied_sum A best < 1"
  proof -
    have "evaluate A S best = Inr (Some (no_arbitrage_result A best))"
      using ne nz' ge by (simp add: evaluate_cases)
    with assms show ?thesis by simp
  qed
qed

lemma evaluate_arbitrageD:
  assumes "evaluate A S best = Inr (Some r)" and "is_arbitrage r"
  shows "implied_sum A best < 1" and "implied_sum A best \<noteq> 0"
    and "\<exists>ps. float_prices A best = Inr ps \<and> r = arbitrage_result A S best ps"
proof -
  show lt: "implied_sum A best < 1"
  proof (rule ccontr)
    assume "\<not> implied_sum A best < 1"
    then have "r = no_arbitrage_result A best" by (rule evaluate_SomeD(4) [OF assms(1)])
    with assms(2) show False by (simp add: no_arbitrage_result_def)
  qed
  from evaluate_SomeD(3) [OF assms(1) lt]
  show "implied_sum A best \<noteq> 0"
    and "\<exists>ps. float_prices A best = Inr ps \<and> r = arbitrage_result A S best ps" by simp_all
qed

lemma opp_stake_make_opportunities:
  "length sts = length best \<Longrightarrow>
     map opp_stake (make_opportunities A best sts) = map (\<lambda>s. f_round A s 2) sts"
proof (induction best arbitrary: sts)
  case Nil
  then show ?case by (simp add: make_opportunities_def)
next
  case (Cons kv best)
  then obtain s rest where sts: "sts = s # rest" by (cases sts) auto
  with Cons.prems have "length rest = length best" by simp
  from Cons.IH [OF this] show ?case
    unfolding sts
    by (simp add: make_opportunities_def dict_keys_def dict_values_def split_beta)
qed

lemmas evaluate_defs = evaluate_def probabilities_def dict_values_def dict_keys_def py_div_def
  strokes_def stroke_def returns_def stake_times_price_def make_opportunities_def
  double_arith_def float_sum_def to_float_def

lemmas quantity_defs = implied_sum_def implied_probs_def unrounded_stakes_def
  unrounded_stake_def outcome_returns_def float_prices_def first_return_profit_def
  rounded_stake_profit_def sum_accurate_def

lemmas rnd53_defs = rnd53_def binade_def bit_length.simps py_round_def round_half_even_def
  max_float_def Let_def

lemma example_evaluate: "evaluate double_arith 100 example_odds = Inr (Some example_result)"
  unfolding example_odds_def example_result_def
  by (simp add: evaluate_defs Let_def) (simp add: rnd53_defs)

lemma scan_no_markets:
  "\<forall>b\<in>set bs. markets b = [] \<Longrightarrow> foldl scan_bookmaker acc bs = acc"
  by (induction bs arbitrary: acc) (simp_all add: scan_bookmaker_def)

section \<open>Binary64 arithmetic is accurate\<close>

lemma round_half_even_error: "\<bar>of_int (round_half_even y) - y\<bar> \<le> 1 / 2"
proof -
  have "of_int \<lfloor>y\<rfloor> \<le> y" and "y < of_int \<lfloor>y\<rfloor> + 1" by linarith+
  then show ?thesis by (auto simp: round_half_even_def Let_def)
qed

lemma round_half_even_nonneg: "0 \<le> x \<Longrightarrow> 0 \<le> round_half_even x"
proof -
  assume "0 \<le> x"
  then have "0 \<le> \<lfloor>x\<rfloor>" by simp
  then show ?thesis by (simp add: round_half_even_def Let_def)
qed


lemma bit_length_bounds:
  "0 < n \<Longrightarrow> 2 ^ (bit_length n - 1) \<le> n \<and> n < 2 ^ bit_length n"
proof (induction n rule: bit_length.induct)
  case (1 n)
  show ?case
  proof (cases "n div 2 = 0")
    case True
    with "1.prems" have "n = 1" by (simp add: div_eq_0_iff) 
    then show ?thesis by (simp add: bit_length.simps)
  next
    case False
    then have pos: "0 < n div 2" by simp
    from "1.prems" have n0: "n \<noteq> 0" by simp
    from "1.IH" [OF n0 pos]
    have lo: "2 ^ (bit_length (n div 2) - 1) \<le> n div 2"
      and hi: "n div 2 < 2 ^ bit_length (n div 2)" by simp_all
    have bl: "bit_length n = Suc (bit_length (n div 2))"
      using n0 by (simp add: bit_length.simps [of n])
    have ge1: "1 \<le> bit_length (n div 2)"
      using pos by (simp add: bit_length.simps [of "n div 2"])
    have "2 ^ (bit_length n - 1) = 2 * 2 ^ (bit_length (n div 2) - 1)"
      using ge1 unfolding bl by (cases "bit_length (n div 2)") simp_all
    also have "\<dots> \<le> 2 * (n div 2)" using lo by simp
    also have "\<dots> \<le> n" by simp
    finally have a: "2 ^ (bit_length n - 1) \<le> n" .
    have "n < 2 * (n div 2) + 2" by linarith
    also have "\<dots> \<le> 2 * 2 ^ bit_length (n div 2)" using hi by simp
    finally have b: "n < 2 ^ bit_length n" unfolding bl by simp
    from a b show ?thesis by simp
  qed
qed

lemma binade_le:
  assumes "0 < x"
  shows "2 powi (binade x) \<le> x"
proof (cases "1 \<le> x")
  case True
  let ?n = "nat \<lfloor>x\<rfloor>"
  have n: "0 < ?n" using True by simp
  from bit_length_bounds [OF n] have lo: "2 ^ (bit_length ?n - 1) \<le> ?n" by simp
  have ge1: "1 \<le> bit_length ?n" using n by (simp add: bit_length.simps [of ?n])
  have "binade x = int (bit_length ?n - 1)"
    using True ge1 by (simp add: binade_def)
  then have "2 powi (binade x) = (2::real) ^ (bit_length ?n - 1)"
    by (simp only: power_int_of_nat)
  also have "\<dots> = real (2 ^ (bit_length ?n - 1))" by simp
  also have "\<dots> \<le> real ?n" using lo by (simp only: of_nat_le_iff)
  also have "\<dots> \<le> x" using True by simp
  finally show ?thesis .
next
  case False
  define c where "c = \<lceil>1 / x\<rceil>"
  define m where "m = nat (c - 1)"
  have inv: "1 < 1 / x" using False assms by simp
  then have c: "2 \<le> c" unfolding c_def by linarith
  then have m: "0 < m" unfolding m_def by simp
  from bit_length_bounds [OF m] have hi: "m < 2 ^ bit_length m" by simp
  then have "Suc m \<le> 2 ^ bit_length m" by (rule Suc_leI)
  then have "real (Suc m) \<le> real (2 ^ bit_length m)" by (simp only: of_nat_le_iff)
  also have "real (2 ^ bit_length m) = 2 ^ bit_length m" by simp
  finally have le: "real (Suc m) \<le> 2 ^ bit_length m" .
  have ic: "int (Suc m) = c" using c unfolding m_def by simp
  have "real (Suc m) = of_int (int (Suc m))" by (rule of_int_of_nat_eq [symmetric])
  then have eq: "real (Suc m) = of_int c" unfolding ic .
  have "1 / x \<le> of_int c" unfolding c_def by linarith
  with le eq have "1 / x \<le> 2 ^ bit_length m" by linarith
  then have "1 \<le> 2 ^ bit_length m * x" using assms by (simp add: pos_divide_le_eq)
  then have x: "1 / 2 ^ bit_length m \<le> x" by (simp add: pos_divide_le_eq mult.commute)
  have "binade x = - int (bit_length m)"
    using False by (simp add: binade_def m_def c_def)
  then have "2 powi (binade x) = 1 / (2::real) ^ bit_length m"
    by (simp add: power_int_minus power_int_of_nat inverse_eq_divide)
  with x show ?thesis by simp
qed

lemma scale_binade: "(2::real) powi (52 - e) * 2 powi e = 2 ^ 52"
proof -
  have "(2::real) powi (52 - e) * 2 powi e = (2::real) powi ((52 - e) + e)"
    by (rule power_int_add [symmetric]) simp
  also have "(52 - e) + e = 52" by simp
  also have "(2::real) powi 52 = 2 ^ 52" by (simp add: power_int_def)
  finally show ?thesis .
qed

lemma rnd53_error: "\<bar>rnd53 x - x\<bar> \<le> \<bar>x\<bar> / 2 ^ 53"
proof (cases "x = 0")
  case True
  then show ?thesis by (simp add: rnd53_def)
next
  case False
  define e where "e = binade \<bar>x\<bar>"
  define s :: real where "s = 2 powi (52 - e)"
  define n :: real where "n = of_int (round_half_even (x * s))"
  have s: "0 < s" unfolding s_def by (simp add: zero_less_power_int)
  have r: "rnd53 x = n / s"
    using False by (simp add: rnd53_def Let_def e_def s_def n_def)
  have "n / s - x = (n - x * s) / s"
    using s by (simp add: diff_divide_distrib)
  then have "\<bar>rnd53 x - x\<bar> = \<bar>(n - x * s) / s\<bar>" unfolding r by simp
  also have "\<dots> = \<bar>n - x * s\<bar> / s"
    using s by (simp only: abs_divide abs_of_pos)
  also have "\<dots> \<le> (1 / 2) / s"
    unfolding n_def using s by (intro divide_right_mono [OF round_half_even_error]) simp
  finally have a: "\<bar>rnd53 x - x\<bar> \<le> (1 / 2) / s" .
  have lo: "2 powi e \<le> \<bar>x\<bar>"
    unfolding e_def using False by (intro binade_le) simp
  have "2 ^ 52 = s * 2 powi e" unfolding s_def by (rule scale_binade [symmetric])
  also have "\<dots> \<le> s * \<bar>x\<bar>" using lo s by (intro mult_left_mono) simp_all
  finally have "(2::real) ^ 52 \<le> s * \<bar>x\<bar>" .
  then have "(1 / 2) / s \<le> \<bar>x\<bar> / 2 ^ 53"
    using s by (simp add: field_simps)
  with a show ?thesis by simp
qed

lemma rnd53_nonneg: "0 \<le> x \<Longrightarrow> 0 \<le> rnd53 x"
proof (cases "x = 0")
  case True
  then show ?thesis by (simp add: rnd53_def)
next
  case False
  assume "0 \<le> x"
  then have "0 \<le> round_half_even (x * 2 powi (52 - binade \<bar>x\<bar>))"
    by (intro round_half_even_nonneg) (simp add: zero_le_power_int)
  then show ?thesis
    using False by (simp add: rnd53_def Let_def zero_le_power_int)
qed

lemma float_sum_nonneg_aux:
  "0 \<le> a \<Longrightarrow> \<forall>x\<in>set xs. 0 \<le> x \<Longrightarrow> 0 \<le> foldl (\<lambda>a x. rnd53 (a + x)) a xs"
proof (induction xs arbitrary: a)
  case Nil
  then show ?case by simp
next
  case (Cons x xs)
  have "0 \<le> rnd53 (a + x)" using Cons.prems by (intro rnd53_nonneg) simp
  from Cons.IH [OF this] Cons.prems(2) show ?case by simp
qed

lemma rnd53_accurate: "\<bar>rnd53 z - z\<bar> \<le> 1 / 2 ^ 53 * \<bar>z\<bar>"
  using rnd53_error [of z] by simp

lemma to_float_accurate: "to_float p = Inr pf \<Longrightarrow> \<bar>pf - p\<bar> \<le> 1 / 2 ^ 53 * \<bar>p\<bar>"
proof -
  assume "to_float p = Inr pf"
  then have "pf = rnd53 p" by (simp add: to_float_def split: if_splits)
  then show ?thesis by (simp only: rnd53_accurate)
qed

lemma double_arith_accurate: "accurate double_arith (1 / 2 ^ 53)"
  unfolding accurate_def
proof (intro conjI allI impI)
  fix x y :: real
  show "\<bar>f_div double_arith x y - x / y\<bar> \<le> 1 / 2 ^ 53 * \<bar>x / y\<bar>"
    unfolding double_arith_def by (simp only: arith.simps rnd53_accurate)
  show "\<bar>f_mul double_arith x y - x * y\<bar> \<le> 1 / 2 ^ 53 * \<bar>x * y\<bar>"
    unfolding double_arith_def by (simp only: arith.simps rnd53_accurate)
  show "\<bar>f_sub double_arith x y - (x - y)\<bar> \<le> 1 / 2 ^ 53 * \<bar>x - y\<bar>"
    unfolding double_arith_def by (simp only: arith.simps rnd53_accurate)
next
  fix p pf
  assume "f_of_price double_arith p = Inr pf"
  then have "to_float p = Inr pf" by (simp add: double_arith_def)
  then show "\<bar>pf - p\<bar> \<le> 1 / 2 ^ 53 * \<bar>p\<bar>" by (rule to_float_accurate)
next
  fix xs :: "real list"
  assume "\<forall>x\<in>set xs. 0 \<le> x"
  then have "0 \<le> float_sum xs"
    unfolding float_sum_def by (intro float_sum_nonneg_aux) simp_all
  then show "0 \<le> f_sum double_arith xs" by (simp add: double_arith_def)
next
  fix x :: real and n :: nat
  assume "0 \<le> py_round x n"
  then have "0 \<le> rnd53 (py_round x n)" by (rule rnd53_nonneg)
  then show "0 \<le> f_round double_arith x n" by (simp add: double_arith_def)
qed

section \<open>Rounding errors of the stakes and the returns\<close>

lemma rel_lower: "\<bar>y - x\<bar> \<le> u * \<bar>x\<bar> \<Longrightarrow> 0 \<le> x \<Longrightarrow> (1 - u) * x \<le> (y::real)"
proof -
  assume a: "\<bar>y - x\<bar> \<le> u * \<bar>x\<bar>" and x: "0 \<le> x"
  from x a have "x - y \<le> u * x" by simp
  then show ?thesis by (simp add: algebra_simps)
qed

lemma rel_upper: "\<bar>y - x\<bar> \<le> u * \<bar>x\<bar> \<Longrightarrow> \<bar>y\<bar> \<le> (1 + u) * \<bar>x::real\<bar>"
proof -
  assume a: "\<bar>y - x\<bar> \<le> u * \<bar>x\<bar>"
  have "\<bar>y\<bar> \<le> \<bar>x\<bar> + \<bar>y - x\<bar>" by simp
  with a show ?thesis by (simp add: algebra_simps)
qed

lemma abs_diff_triangle: "\<bar>x - z\<bar> \<le> \<bar>x - y\<bar> + \<bar>y - (z::real)\<bar>"
  using abs_triangle_ineq [of "x - y" "y - z"] by simp

lemma accurateD:
  assumes "accurate A u"
  shows "y \<noteq> 0 \<Longrightarrow> \<bar>f_div A x y - x / y\<bar> \<le> u * \<bar>x / y\<bar>"
    and "\<bar>f_mul A x y - x * y\<bar> \<le> u * \<bar>x * y\<bar>"
    and "\<bar>f_sub A x y - (x - y)\<bar> \<le> u * \<bar>x - y\<bar>"
    and "f_of_price A p = Inr pf \<Longrightarrow> \<bar>pf - p\<bar> \<le> u * \<bar>p\<bar>"
    and "\<forall>z\<in>set xs. 0 \<le> z \<Longrightarrow> 0 \<le> f_sum A xs"
    and "0 \<le> py_round x n \<Longrightarrow> 0 \<le> f_round A x n"
  using assms unfolding accurate_def by blast+




text \<open>
  The stake of an outcome differs from the exact quotient of the computed quantities by two
  roundings.
\<close>

lemma stake_error:
  assumes acc: "accurate A u" and u: "0 \<le> u" and T: "T \<noteq> 0"
  shows "\<bar>f_mul A (f_div A q T) S - q / T * S\<bar> \<le> (2 * u + u\<^sup>2) * (\<bar>q\<bar> / \<bar>T\<bar> * \<bar>S\<bar>)"
proof -
  define a where "a = f_div A q T"
  define w where "w = \<bar>q\<bar> / \<bar>T\<bar>"
  have w: "\<bar>q / T\<bar> = w" unfolding w_def by (simp only: abs_divide)
  have w0: "0 \<le> w" unfolding w_def by simp
  have e1: "\<bar>a - q / T\<bar> \<le> u * w"
    unfolding a_def w [symmetric] by (rule accurateD(1) [OF acc T])
  have a: "\<bar>a\<bar> \<le> (1 + u) * w"
    unfolding w [symmetric] by (rule rel_upper) (simp only: w e1)
  have "\<bar>f_mul A a S - a * S\<bar> \<le> u * \<bar>a * S\<bar>" by (rule accurateD(2) [OF acc])
  also have "\<dots> = u * (\<bar>a\<bar> * \<bar>S\<bar>)" by (simp only: abs_mult)
  also have "\<dots> \<le> u * ((1 + u) * w * \<bar>S\<bar>)"
    using a u by (intro mult_left_mono mult_right_mono) simp_all
  finally have e2: "\<bar>f_mul A a S - a * S\<bar> \<le> u * ((1 + u) * w * \<bar>S\<bar>)" .
  have "\<bar>a * S - q / T * S\<bar> = \<bar>a - q / T\<bar> * \<bar>S\<bar>"
    by (simp only: left_diff_distrib [symmetric] abs_mult)
  also have "\<dots> \<le> u * w * \<bar>S\<bar>" using e1 by (intro mult_right_mono) simp_all
  finally have e3: "\<bar>a * S - q / T * S\<bar> \<le> u * w * \<bar>S\<bar>" .
  have "\<bar>f_mul A a S - q / T * S\<bar> \<le> \<bar>f_mul A a S - a * S\<bar> + \<bar>a * S - q / T * S\<bar>"
    by (rule abs_diff_triangle)
  also have "\<dots> \<le> u * ((1 + u) * w * \<bar>S\<bar>) + u * w * \<bar>S\<bar>" using e2 e3 by simp
  also have "\<dots> = (2 * u + u\<^sup>2) * (w * \<bar>S\<bar>)" by (simp add: power2_eq_square algebra_simps)
  finally show ?thesis unfolding a_def w_def .
qed

lemma sum_list_abs_diff:
  "\<bar>(\<Sum>x\<leftarrow>xs. f x) - (\<Sum>x\<leftarrow>xs. g x)\<bar> \<le> (\<Sum>x\<leftarrow>xs. \<bar>f x - g x :: real\<bar>)"
proof (induction xs)
  case Nil
  show ?case by simp
next
  case (Cons x xs)
  have "\<bar>(f x + (\<Sum>x\<leftarrow>xs. f x)) - (g x + (\<Sum>x\<leftarrow>xs. g x))\<bar>
          \<le> \<bar>f x - g x\<bar> + \<bar>(\<Sum>x\<leftarrow>xs. f x) - (\<Sum>x\<leftarrow>xs. g x)\<bar>"
    using abs_triangle_ineq [of "f x - g x" "(\<Sum>x\<leftarrow>xs. f x) - (\<Sum>x\<leftarrow>xs. g x)"]
    by (simp add: algebra_simps)
  with Cons.IH show ?case by simp
qed

lemma sum_list_scaled:
  "(\<Sum>x\<leftarrow>xs. f x / t * s) = (\<Sum>x\<leftarrow>xs. f x) / t * (s::real)"
  by (induction xs) (simp_all add: add_divide_distrib distrib_right)

lemma sum_list_bounded:
  "(\<And>x. x \<in> set xs \<Longrightarrow> f x \<le> c * g x) \<Longrightarrow> (\<Sum>x\<leftarrow>xs. f x) \<le> c * (\<Sum>x\<leftarrow>xs. g x :: real)"
proof (induction xs)
  case Nil
  show ?case by simp
next
  case (Cons x xs)
  have "f x \<le> c * g x" by (rule Cons.prems) simp
  moreover have "(\<Sum>x\<leftarrow>xs. f x) \<le> c * (\<Sum>x\<leftarrow>xs. g x)"
    by (rule Cons.IH) (simp add: Cons.prems)
  ultimately show ?case by (simp add: distrib_left)
qed

lemma stakes_sum_error:
  assumes acc: "accurate A u" and u: "0 \<le> u" and g: "sum_accurate A g best"
    and T: "implied_sum A best \<noteq> 0"
  shows "\<bar>sum_list (unrounded_stakes A S best) - S\<bar>
           \<le> (2 * u + u\<^sup>2 + g) *
              ((\<Sum>q\<leftarrow>implied_probs A best. \<bar>q\<bar>) / \<bar>implied_sum A best\<bar> * \<bar>S\<bar>)"
proof -
  define T where "T = implied_sum A best"
  define qs where "qs = implied_probs A best"
  define Q where "Q = (\<Sum>q\<leftarrow>qs. \<bar>q\<bar>)"
  have T0: "T \<noteq> 0" unfolding T_def by (rule T)
  have st: "unrounded_stakes A S best = map (\<lambda>q. f_mul A (f_div A q T) S) qs"
    unfolding unrounded_stakes_def unrounded_stake_def qs_def implied_probs_def T_def
    by (simp add: comp_def)
  have "\<bar>(\<Sum>q\<leftarrow>qs. f_mul A (f_div A q T) S) - (\<Sum>q\<leftarrow>qs. q / T * S)\<bar>
          \<le> (\<Sum>q\<leftarrow>qs. \<bar>f_mul A (f_div A q T) S - q / T * S\<bar>)"
    by (rule sum_list_abs_diff)
  also have "\<dots> \<le> (2 * u + u\<^sup>2) * (\<Sum>q\<leftarrow>qs. \<bar>q\<bar> / \<bar>T\<bar> * \<bar>S\<bar>)"
    by (rule sum_list_bounded) (rule stake_error [OF acc u T0])
  also have "(\<Sum>q\<leftarrow>qs. \<bar>q\<bar> / \<bar>T\<bar> * \<bar>S\<bar>) = Q / \<bar>T\<bar> * \<bar>S\<bar>"
    unfolding Q_def by (rule sum_list_scaled)
  finally have a: "\<bar>sum_list (unrounded_stakes A S best) - (\<Sum>q\<leftarrow>qs. q / T * S)\<bar>
          \<le> (2 * u + u\<^sup>2) * (Q / \<bar>T\<bar> * \<bar>S\<bar>)"
    unfolding st .
  have sq: "(\<Sum>q\<leftarrow>qs. q / T * S) = sum_list qs / T * S"
    using sum_list_scaled [of "\<lambda>q. q" T S qs] by simp
  have "sum_list qs / T * S - S = (sum_list qs - T) / T * S"
    using T0 by (simp add: field_simps)
  then have "\<bar>sum_list qs / T * S - S\<bar> = \<bar>T - sum_list qs\<bar> / \<bar>T\<bar> * \<bar>S\<bar>"
    by (simp add: abs_mult abs_divide abs_minus_commute)
  also have "\<dots> \<le> g * Q / \<bar>T\<bar> * \<bar>S\<bar>"
  proof -
    have "\<bar>T - sum_list qs\<bar> \<le> g * Q"
      using g unfolding sum_accurate_def T_def qs_def Q_def .
    then show ?thesis by (intro mult_right_mono divide_right_mono) simp_all
  qed
  finally have b: "\<bar>sum_list qs / T * S - S\<bar> \<le> g * (Q / \<bar>T\<bar> * \<bar>S\<bar>)" by simp
  have "\<bar>sum_list (unrounded_stakes A S best) - S\<bar>
          \<le> \<bar>sum_list (unrounded_stakes A S best) - sum_list qs / T * S\<bar>
            + \<bar>sum_list qs / T * S - S\<bar>"
    by (rule abs_diff_triangle)
  also have "\<dots> \<le> (2 * u + u\<^sup>2) * (Q / \<bar>T\<bar> * \<bar>S\<bar>) + g * (Q / \<bar>T\<bar> * \<bar>S\<bar>)"
    using a b unfolding sq by simp
  also have "\<dots> = (2 * u + u\<^sup>2 + g) * (Q / \<bar>T\<bar> * \<bar>S\<bar>)" by (simp add: algebra_simps)
  finally show ?thesis unfolding Q_def qs_def T_def .
qed

lemma implied_probs_pos:
  assumes acc: "accurate A u" and u: "u < 1" and pos: "\<forall>v\<in>set (dict_values best). 0 < fst v"
  shows "\<forall>q\<in>set (implied_probs A best). 0 < q"
proof
  fix q assume "q \<in> set (implied_probs A best)"
  then obtain v where v: "v \<in> set (dict_values best)" and q: "q = f_div A 1 (fst v)"
    unfolding implied_probs_def by auto
  from pos v have p: "0 < fst v" by simp
  then have p0: "fst v \<noteq> 0" by simp
  have "(1 - u) * (1 / fst v) \<le> q"
    unfolding q using accurateD(1) [OF acc p0, of 1] p by (intro rel_lower) simp_all
  moreover have "0 < (1 - u) * (1 / fst v)" using u p by simp
  ultimately show "0 < q" by simp
qed

lemma sum_list_pos_real:
  "xs \<noteq> [] \<Longrightarrow> \<forall>x\<in>set xs. 0 < x \<Longrightarrow> 0 < sum_list (xs :: real list)"
proof (induction xs)
  case Nil
  then show ?case by simp
next
  case (Cons x xs)
  have x: "0 < x" using Cons.prems(2) by simp
  show ?case
  proof (cases "xs = []")
    case True
    with x show ?thesis by simp
  next
    case False
    then have "0 < sum_list xs" using Cons.IH Cons.prems(2) by simp
    from add_pos_pos [OF x this] show ?thesis by simp
  qed
qed

lemma sum_list_abs_pos: "\<forall>x\<in>set xs. 0 < x \<Longrightarrow> (\<Sum>x\<leftarrow>xs. \<bar>x\<bar>) = sum_list (xs :: real list)"
  by (induction xs) simp_all

lemma stakes_sum_error_pos:
  assumes acc: "accurate A u" and u: "0 \<le> u" "u < 1" and g: "sum_accurate A g best"
    and g1: "0 \<le> g" "g < 1" and ne: "best \<noteq> []"
    and pos: "\<forall>v\<in>set (dict_values best). 0 < fst v"
  shows "\<bar>sum_list (unrounded_stakes A S best) - S\<bar> \<le> (2 * u + u\<^sup>2 + g) / (1 - g) * \<bar>S\<bar>"
proof -
  define T where "T = implied_sum A best"
  define qs where "qs = implied_probs A best"
  have qpos: "\<forall>q\<in>set qs. 0 < q" unfolding qs_def by (rule implied_probs_pos [OF acc u(2) pos])
  have qne: "qs \<noteq> []" unfolding qs_def implied_probs_def dict_values_def using ne by simp
  have Q: "0 < sum_list qs" by (rule sum_list_pos_real [OF qne qpos])
  have abs: "(\<Sum>q\<leftarrow>qs. \<bar>q\<bar>) = sum_list qs" by (rule sum_list_abs_pos [OF qpos])
  have "\<bar>T - sum_list qs\<bar> \<le> g * sum_list qs"
    using g unfolding sum_accurate_def T_def qs_def [symmetric] abs .
  then have "sum_list qs - T \<le> g * sum_list qs" by simp
  then have lo: "(1 - g) * sum_list qs \<le> T" by (simp add: algebra_simps)
  have "0 < (1 - g) * sum_list qs" using g1 Q by simp
  with lo have T: "0 < T" by simp
  then have T0: "implied_sum A best \<noteq> 0" unfolding T_def by simp
  have "sum_list qs * (1 - g) \<le> T * 1" using lo by (simp add: mult.commute)
  then have "sum_list qs / T \<le> 1 / (1 - g)"
    using T g1 by (simp add: divide_le_eq pos_le_divide_eq mult.commute)
  then have ratio: "sum_list qs / \<bar>T\<bar> * \<bar>S\<bar> \<le> 1 / (1 - g) * \<bar>S\<bar>"
    using T by (intro mult_right_mono) simp_all
  have c: "0 \<le> 2 * u + u\<^sup>2 + g" using u g1 by simp
  have "\<bar>sum_list (unrounded_stakes A S best) - S\<bar>
          \<le> (2 * u + u\<^sup>2 + g) * (sum_list qs / \<bar>T\<bar> * \<bar>S\<bar>)"
    using stakes_sum_error [OF acc u(1) g T0, of S] unfolding T_def qs_def [symmetric] abs .
  also have "\<dots> \<le> (2 * u + u\<^sup>2 + g) * (1 / (1 - g) * \<bar>S\<bar>)"
    using ratio c by (intro mult_left_mono) simp_all
  finally show ?thesis by simp
qed

section \<open>What get_best_odds computes\<close>

lemma scan_bookmaker_outcomes:
  "scan_bookmaker best b = foldl (record_outcome (title b)) best (first_market_outcomes b)"
  by (simp add: scan_bookmaker_def first_market_outcomes_def split: list.split)

lemma map_of_record_outcome:
  "map_of (record_outcome t best oc) n =
     (if name oc = n
      then (case map_of best n of
              None \<Rightarrow> Some (price oc, t)
            | Some r0 \<Rightarrow> if price oc > fst r0 then Some (price oc, t) else Some r0)
      else map_of best n)"
  by (simp add: record_outcome_def update_conv' split: option.split)

lemma record_outcome_keeps:
  "map_of best (name oc) = Some r0 \<Longrightarrow> price oc \<le> fst r0 \<Longrightarrow> record_outcome t best oc = best"
  by (simp add: record_outcome_def)

text \<open>One bookmaker's outcomes, for the outcome name n: either the record is unchanged and
  every price quoted is at most the record's, or the record is this bookmaker's greatest price.\<close>

lemma inner_loop:
  "(map_of (foldl (record_outcome t) best ocs) n = map_of best n \<and>
            (\<forall>q\<in>set (prices_named n ocs). \<exists>r0. map_of best n = Some r0 \<and> q \<le> fst r0)) \<or>
         (\<exists>p\<in>set (prices_named n ocs). map_of (foldl (record_outcome t) best ocs) n = Some (p, t) \<and>
            (\<forall>q\<in>set (prices_named n ocs). q \<le> p) \<and> (\<forall>r0. map_of best n = Some r0 \<longrightarrow> fst r0 < p))"
proof (induction ocs rule: rev_induct)
  case Nil
  show ?case by (simp add: prices_named_def)
next
  case (snoc oc ocs)
  let ?mid = "foldl (record_outcome t) best ocs"
  let ?new = "record_outcome t ?mid oc"
  have new: "foldl (record_outcome t) best (ocs @ [oc]) = ?new" by simp
  show ?case
  proof (cases "name oc = n")
    case False
    then have "prices_named n (ocs @ [oc]) = prices_named n ocs" by (simp add: prices_named_def)
    moreover have "map_of ?new n = map_of ?mid n" using False by (simp add: map_of_record_outcome)
    ultimately show ?thesis using snoc.IH by (simp only: new)
  next
    case True
    then have Pnew: "set (prices_named n (ocs @ [oc])) = insert (price oc) (set (prices_named n ocs))" by (simp add: prices_named_def)
    from snoc.IH show ?thesis
    proof (elim disjE conjE bexE)
      assume same: "map_of ?mid n = map_of best n"
        and le: "\<forall>q\<in>set (prices_named n ocs). \<exists>r0. map_of best n = Some r0 \<and> q \<le> fst r0"
      show ?thesis
      proof (cases "map_of best n")
        case None
        with le have emp: "set (prices_named n ocs) = {}" by auto
        have "map_of ?new n = Some (price oc, t)"
          using True same None by (simp add: map_of_record_outcome)
        then show ?thesis unfolding new Pnew emp using None by simp
      next
        case (Some r0)
        show ?thesis
        proof (cases "price oc > fst r0")
          case gt: True
          have "map_of ?new n = Some (price oc, t)"
            using True same Some gt by (simp add: map_of_record_outcome)
          moreover have "\<forall>q\<in>set (prices_named n ocs). q \<le> price oc" using le Some gt by fastforce
          ultimately show ?thesis unfolding new Pnew using Some gt by simp
        next
          case ngt: False
          have "map_of ?new n = map_of best n"
            using True same Some ngt by (simp add: map_of_record_outcome)
          then show ?thesis unfolding new Pnew using Some ngt le by simp
        qed
      qed
    next
      fix p
      assume p: "p \<in> set (prices_named n ocs)" and mid: "map_of ?mid n = Some (p, t)"
        and mx: "\<forall>q\<in>set (prices_named n ocs). q \<le> p"
        and above: "\<forall>r0. map_of best n = Some r0 \<longrightarrow> fst r0 < p"
      show ?thesis
      proof (cases "price oc > p")
        case gt: True
        have "map_of ?new n = Some (price oc, t)"
          using True mid gt by (simp add: map_of_record_outcome)
        moreover have "\<forall>q\<in>set (prices_named n ocs). q \<le> price oc" using mx gt by fastforce
        moreover have "\<forall>r0. map_of best n = Some r0 \<longrightarrow> fst r0 < price oc"
          using above gt by fastforce
        ultimately have "\<exists>p'\<in>set (prices_named n (ocs @ [oc])). map_of ?new n = Some (p', t) \<and>
            (\<forall>q\<in>set (prices_named n (ocs @ [oc])). q \<le> p') \<and> (\<forall>r0. map_of best n = Some r0 \<longrightarrow> fst r0 < p')"
          unfolding Pnew by simp
        then show ?thesis unfolding new by (rule disjI2)
      next
        case ngt: False
        have "map_of ?new n = Some (p, t)"
          using True mid ngt by (simp add: map_of_record_outcome)
        then have "\<exists>p'\<in>set (prices_named n (ocs @ [oc])). map_of ?new n = Some (p', t) \<and>
            (\<forall>q\<in>set (prices_named n (ocs @ [oc])). q \<le> p') \<and> (\<forall>r0. map_of best n = Some r0 \<longrightarrow> fst r0 < p')"
          unfolding Pnew using p mx above ngt by auto
        then show ?thesis unfolding new by (rule disjI2)
      qed
    qed
  qed
qed

lemma scan_bookmaker_cases:
  "(map_of (scan_bookmaker best b) n = map_of best n \<and>
      (\<forall>q\<in>set (quoted b n). \<exists>r0. map_of best n = Some r0 \<and> q \<le> fst r0)) \<or>
   (\<exists>p\<in>set (quoted b n). map_of (scan_bookmaker best b) n = Some (p, title b) \<and>
      (\<forall>q\<in>set (quoted b n). q \<le> p) \<and> (\<forall>r0. map_of best n = Some r0 \<longrightarrow> fst r0 < p))"
  unfolding scan_bookmaker_outcomes quoted_def by (rule inner_loop)

text \<open>The record for n after the bookmakers bs: none while nobody quoted n; otherwise a price
  p of a bookmaker b with everything before b strictly below p and everything else at most p.\<close>

lemma outer_loop:
  "(map_of (foldl scan_bookmaker [] bs) n = None \<and> (\<forall>b\<in>set bs. quoted b n = [])) \<or>
   (\<exists>p pre b suf. map_of (foldl scan_bookmaker [] bs) n = Some (p, title b) \<and>
      bs = pre @ b # suf \<and> p \<in> set (quoted b n) \<and>
      (\<forall>b'\<in>set pre. \<forall>q\<in>set (quoted b' n). q < p) \<and>
      (\<forall>b'\<in>set (b # suf). \<forall>q\<in>set (quoted b' n). q \<le> p))"
proof (induction bs rule: rev_induct)
  case Nil
  show ?case by simp
next
  case (snoc bn bs)
  let ?mid = "foldl scan_bookmaker [] bs"
  let ?new = "scan_bookmaker ?mid bn"
  have new: "foldl scan_bookmaker [] (bs @ [bn]) = ?new" by simp
  from scan_bookmaker_cases [of ?mid bn n] show ?case
  proof (elim disjE conjE bexE)
    assume same: "map_of ?new n = map_of ?mid n"
      and le: "\<forall>q\<in>set (quoted bn n). \<exists>r0. map_of ?mid n = Some r0 \<and> q \<le> fst r0"
    from snoc.IH show ?thesis
    proof (elim disjE conjE exE)
      assume none: "map_of ?mid n = None" and emp: "\<forall>b\<in>set bs. quoted b n = []"
      from le none have "set (quoted bn n) = {}" by auto
      then have "quoted bn n = []" by simp
      with emp same none show ?thesis unfolding new by simp
    next
      fix p pre b suf
      assume mid: "map_of ?mid n = Some (p, title b)" and bs: "bs = pre @ b # suf"
        and p: "p \<in> set (quoted b n)"
        and lt: "\<forall>b'\<in>set pre. \<forall>q\<in>set (quoted b' n). q < p"
        and le': "\<forall>b'\<in>set (b # suf). \<forall>q\<in>set (quoted b' n). q \<le> p"
      have a: "map_of ?new n = Some (p, title b)" using same mid by simp
      have b: "bs @ [bn] = pre @ b # (suf @ [bn])" using bs by simp
      have c: "\<forall>b'\<in>set (b # (suf @ [bn])). \<forall>q\<in>set (quoted b' n). q \<le> p"
        using le' le mid by auto
      from a b p lt c have "\<exists>p pre b suf. map_of ?new n = Some (p, title b) \<and>
          bs @ [bn] = pre @ b # suf \<and> p \<in> set (quoted b n) \<and>
          (\<forall>b'\<in>set pre. \<forall>q\<in>set (quoted b' n). q < p) \<and>
          (\<forall>b'\<in>set (b # suf). \<forall>q\<in>set (quoted b' n). q \<le> p)"
        by blast
      then show ?thesis unfolding new by (rule disjI2)
    qed
  next
    fix p
    assume p: "p \<in> set (quoted bn n)" and nw: "map_of ?new n = Some (p, title bn)"
      and mx: "\<forall>q\<in>set (quoted bn n). q \<le> p"
      and above: "\<forall>r0. map_of ?mid n = Some r0 \<longrightarrow> fst r0 < p"
    have below: "\<forall>b'\<in>set bs. \<forall>q\<in>set (quoted b' n). q < p"
      using snoc.IH
    proof (elim disjE conjE exE)
      assume "\<forall>b\<in>set bs. quoted b n = []"
      then show ?thesis by simp
    next
      fix p0 pre b suf
      assume mid: "map_of ?mid n = Some (p0, title b)" and bs: "bs = pre @ b # suf"
        and lt: "\<forall>b'\<in>set pre. \<forall>q\<in>set (quoted b' n). q < p0"
        and le': "\<forall>b'\<in>set (b # suf). \<forall>q\<in>set (quoted b' n). q \<le> p0"
      from above mid have p0: "p0 < p" by simp
      show ?thesis
      proof (intro ballI)
        fix b' q assume b': "b' \<in> set bs" and q: "q \<in> set (quoted b' n)"
        from b' bs have "b' \<in> set pre \<or> b' \<in> set (b # suf)" by auto
        then have "q \<le> p0" using lt le' q by fastforce
        with p0 show "q < p" by simp
      qed
    qed
    have c: "\<forall>b'\<in>set (bn # []). \<forall>q\<in>set (quoted b' n). q \<le> p" using mx by simp
    have b: "bs @ [bn] = bs @ bn # []" by simp
    from nw b p below c have "\<exists>p pre b suf. map_of ?new n = Some (p, title b) \<and>
          bs @ [bn] = pre @ b # suf \<and> p \<in> set (quoted b n) \<and>
          (\<forall>b'\<in>set pre. \<forall>q\<in>set (quoted b' n). q < p) \<and>
          (\<forall>b'\<in>set (b # suf). \<forall>q\<in>set (quoted b' n). q \<le> p)"
      by blast
    then show ?thesis unfolding new by (rule disjI2)
  qed
qed

lemma find_first:
  "\<forall>x\<in>set pre. \<not> P x \<Longrightarrow> P b \<Longrightarrow> find P (pre @ b # suf) = Some b"
  by (induction pre) simp_all

lemma name_in_quoted:
  "oc \<in> set (first_market_outcomes b) \<Longrightarrow> price oc \<in> set (quoted b (name oc))"
  by (simp add: quoted_def prices_named_def)

lemma tie_match_best:
  "get_best_odds tie_match = [(''Home'', (5 / 2, ''BookC'')), (''Away'', (3, ''BookA''))]"
  by (simp add: tie_match_def get_best_odds_def scan_bookmaker_def record_outcome_def)

section \<open>Claims about get_best_odds\<close>

text \<open>
  C1. For every outcome name that appears in some bookmaker's first market, the mapping
  returned by \<open>get_best_odds\<close> has a record for it; the record's price is at least every
  price quoted for that name in any bookmaker's first market, and the record's bookmaker
  name is the title of a bookmaker that quoted exactly that price for that name.
\<close>

theorem best_price_correct:
  assumes "b \<in> set (bookmakers m)" and "oc \<in> set (first_market_outcomes b)"
  shows "\<exists>p t. map_of (get_best_odds m) (name oc) = Some (p, t) \<and>
           (\<forall>b'\<in>set (bookmakers m). \<forall>q\<in>set (quoted b' (name oc)). q \<le> p) \<and>
           (\<exists>b'\<in>set (bookmakers m). title b' = t \<and> p \<in> set (quoted b' (name oc)))"
proof -
  from name_in_quoted [OF assms(2)] have ne: "quoted b (name oc) \<noteq> []" by auto
  from outer_loop [of "bookmakers m" "name oc"] show ?thesis
  proof (elim disjE conjE exE)
    assume "\<forall>b\<in>set (bookmakers m). quoted b (name oc) = []"
    with assms(1) ne show ?thesis by blast
  next
    fix p pre b0 suf
    assume rec: "map_of (foldl scan_bookmaker [] (bookmakers m)) (name oc) = Some (p, title b0)"
      and bs: "bookmakers m = pre @ b0 # suf"
      and p: "p \<in> set (quoted b0 (name oc))"
      and lt: "\<forall>b'\<in>set pre. \<forall>q\<in>set (quoted b' (name oc)). q < p"
      and le: "\<forall>b'\<in>set (b0 # suf). \<forall>q\<in>set (quoted b' (name oc)). q \<le> p"
    have all: "\<forall>b'\<in>set (bookmakers m). \<forall>q\<in>set (quoted b' (name oc)). q \<le> p"
    proof (intro ballI)
      fix b' q assume b': "b' \<in> set (bookmakers m)" and q: "q \<in> set (quoted b' (name oc))"
      from b' bs have "b' \<in> set pre \<or> b' \<in> set (b0 # suf)" by auto
      then show "q \<le> p" using lt le q by fastforce
    qed
    have "b0 \<in> set (bookmakers m)" using bs by simp
    with rec p all show ?thesis unfolding get_best_odds_def by blast
  qed
qed

text \<open>C1 on the match with ties, at the outcome Home as quoted by BookD.\<close>

theorem best_price_correct_witness:
  "get_best_odds tie_match = [(''Home'', (5 / 2, ''BookC'')), (''Away'', (3, ''BookA''))] \<and>
   (\<exists>p t. map_of (get_best_odds tie_match) ''Home'' = Some (p, t) \<and> p = 5 / 2 \<and> t = ''BookC'' \<and>
      list_all (\<lambda>b'. list_all (\<lambda>q. q \<le> p) (quoted b' ''Home'')) (bookmakers tie_match) \<and>
      list_ex (\<lambda>b'. title b' = t \<and> p \<in> set (quoted b' ''Home'')) (bookmakers tie_match))"
proof -
  let ?b = "\<lparr>title = ''BookD'',
             markets = [\<lparr>outcomes = [\<lparr>name = ''Home'', price = 5 / 2\<rparr>, \<lparr>name = ''Away'', price = 14 / 5\<rparr>]\<rparr>]\<rparr>"
  let ?oc = "\<lparr>name = ''Home'', price = 5 / 2\<rparr>"
  have h1: "?b \<in> set (bookmakers tie_match)" by (simp add: tie_match_def)
  have h2: "?oc \<in> set (first_market_outcomes ?b)" by (simp add: first_market_outcomes_def)
  from best_price_correct [OF h1 h2]
  obtain p t where rec: "map_of (get_best_odds tie_match) ''Home'' = Some (p, t)"
    and mx: "\<forall>b'\<in>set (bookmakers tie_match). \<forall>q\<in>set (quoted b' ''Home''). q \<le> p"
    and src: "\<exists>b'\<in>set (bookmakers tie_match). title b' = t \<and> p \<in> set (quoted b' ''Home'')"
    by auto
  from rec have pt: "p = 5 / 2" "t = ''BookC''" by (simp_all add: tie_match_best)
  from mx have mx': "list_all (\<lambda>b'. list_all (\<lambda>q. q \<le> p) (quoted b' ''Home'')) (bookmakers tie_match)"
    by (simp add: list_all_iff)
  from src have src': "list_ex (\<lambda>b'. title b' = t \<and> p \<in> set (quoted b' ''Home'')) (bookmakers tie_match)"
    by (simp add: list_ex_iff)
  from rec pt mx' src' tie_match_best show ?thesis by blast
qed

text \<open>
  C6. The record for an outcome name holds the greatest price quoted for it, paired with
  the title of the earliest bookmaker, in the snapshot's order, that quotes that price:
  \<open>find\<close> returns the first bookmaker of the list with the property. In the loop body, a
  price that is not greater than the recorded one leaves the mapping as it is, and a strictly
  greater one replaces the record.
\<close>

theorem tie_break_first_seen:
  "(map_of (get_best_odds m) n = Some (p, t) \<longrightarrow>
      (\<forall>b\<in>set (bookmakers m). \<forall>q\<in>set (quoted b n). q \<le> p) \<and>
      (\<exists>b. find (\<lambda>b. p \<in> set (quoted b n)) (bookmakers m) = Some b \<and> title b = t)) \<and>
   (map_of best (name oc) = Some r0 \<and> price oc \<le> fst r0 \<longrightarrow>
      record_outcome t' best oc = best) \<and>
   (map_of best (name oc) = Some r0 \<and> fst r0 < price oc \<longrightarrow>
      map_of (record_outcome t' best oc) (name oc) = Some (price oc, t'))"
proof (intro conjI impI)
  assume rec0: "map_of (get_best_odds m) n = Some (p, t)"
  from outer_loop [of "bookmakers m" n]
  have "(\<forall>b\<in>set (bookmakers m). \<forall>q\<in>set (quoted b n). q \<le> p) \<and>
        (\<exists>b. find (\<lambda>b. p \<in> set (quoted b n)) (bookmakers m) = Some b \<and> title b = t)"
  proof (elim disjE conjE exE)
    assume "map_of (foldl scan_bookmaker [] (bookmakers m)) n = None"
    with rec0 show ?thesis by (simp add: get_best_odds_def)
  next
    fix p1 pre b0 suf
    assume rec: "map_of (foldl scan_bookmaker [] (bookmakers m)) n = Some (p1, title b0)"
      and bs: "bookmakers m = pre @ b0 # suf"
      and p1: "p1 \<in> set (quoted b0 n)"
      and lt: "\<forall>b'\<in>set pre. \<forall>q\<in>set (quoted b' n). q < p1"
      and le: "\<forall>b'\<in>set (b0 # suf). \<forall>q\<in>set (quoted b' n). q \<le> p1"
    from rec rec0 have eq: "p1 = p" "title b0 = t" by (simp_all add: get_best_odds_def)
    have all: "\<forall>b'\<in>set (bookmakers m). \<forall>q\<in>set (quoted b' n). q \<le> p"
    proof (intro ballI)
      fix b' q assume b': "b' \<in> set (bookmakers m)" and q: "q \<in> set (quoted b' n)"
      from b' bs have "b' \<in> set pre \<or> b' \<in> set (b0 # suf)" by auto
      then show "q \<le> p" using lt le q eq(1) by fastforce
    qed
    have "\<forall>x\<in>set pre. \<not> p \<in> set (quoted x n)" using lt eq(1) by fastforce
    from find_first [of pre "\<lambda>b. p \<in> set (quoted b n)" b0 suf, OF this] p1 eq(1)
    have "find (\<lambda>b. p \<in> set (quoted b n)) (bookmakers m) = Some b0" unfolding bs by simp
    with all eq(2) show ?thesis by blast
  qed
  then show "\<forall>b\<in>set (bookmakers m). \<forall>q\<in>set (quoted b n). q \<le> p"
    and "\<exists>b. find (\<lambda>b. p \<in> set (quoted b n)) (bookmakers m) = Some b \<and> title b = t"
    by blast+
next
  assume "map_of best (name oc) = Some r0 \<and> price oc \<le> fst r0"
  then show "record_outcome t' best oc = best" by (simp add: record_outcome_keeps)
next
  assume "map_of best (name oc) = Some r0 \<and> fst r0 < price oc"
  then show "map_of (record_outcome t' best oc) (name oc) = Some (price oc, t')"
    by (simp add: map_of_record_outcome)
qed

text \<open>
  C6 on the match with ties: BookA (first) and BookC (third) both quote 3 for Away, and the
  record names BookA.
\<close>

theorem tie_break_first_seen_witness:
  "map_of (get_best_odds tie_match) ''Away'' = Some (3, ''BookA'') \<and>
   quoted (bookmakers tie_match ! 0) ''Away'' = [3] \<and>
   quoted (bookmakers tie_match ! 2) ''Away'' = [3] \<and>
   (\<exists>b. find (\<lambda>b. 3 \<in> set (quoted b ''Away'')) (bookmakers tie_match) = Some b \<and>
        title b = ''BookA'') \<and>
   record_outcome ''BookC'' [(''Away'', (3, ''BookA''))] \<lparr>name = ''Away'', price = 3\<rparr>
     = [(''Away'', (3, ''BookA''))]"
proof -
  have rec: "map_of (get_best_odds tie_match) ''Away'' = Some (3, ''BookA'')"
    by (simp add: tie_match_best)
  have q0: "quoted (bookmakers tie_match ! 0) ''Away'' = [3]"
    by (simp add: tie_match_def quoted_def prices_named_def first_market_outcomes_def)
  have q2: "quoted (bookmakers tie_match ! 2) ''Away'' = [3]"
    by (simp add: tie_match_def quoted_def prices_named_def first_market_outcomes_def)
  have keep: "map_of [(''Away'', (3::real, ''BookA''))] (name \<lparr>name = ''Away'', price = 3\<rparr>)
                = Some (3, ''BookA'') \<and>
              price \<lparr>name = ''Away'', price = 3\<rparr> \<le> fst (3::real, ''BookA'')"
    by simp
  note t = tie_break_first_seen [where m = tie_match and n = "''Away''" and p = 3
      and t = "''BookA''" and best = "[(''Away'', (3, ''BookA''))]"
      and oc = "\<lparr>name = ''Away'', price = 3\<rparr>" and ?r0.0 = "(3, ''BookA'')" and t' = "''BookC''"]
  from t rec have first: "\<exists>b. find (\<lambda>b. 3 \<in> set (quoted b ''Away'')) (bookmakers tie_match) = Some b \<and>
        title b = ''BookA''" by blast
  from t keep have same: "record_outcome ''BookC'' [(''Away'', (3, ''BookA''))]
      \<lparr>name = ''Away'', price = 3\<rparr> = [(''Away'', (3, ''BookA''))]" by blast
  from rec q0 q2 first same show ?thesis by blast
qed

section \<open>Claims about evaluate\<close>



text \<open>
  C3 as stated fails in binary64 arithmetic: with prices of both signs the stakes cancel.
  For the prices 2 and -2.0000000000000004 and a total stake of 100 the arbitrage flag is
  true and the two unrounded stakes add up to 128.
\<close>

theorem mixed_sign_stakes_sum:
  "evaluate double_arith 100
     [(''Home'', (2, ''BookA'')), (''Away'', (- (2 + 1 / 2 ^ 51), ''BookB''))] =
     Inr (Some \<lparr>total_prob = 0, is_arbitrage = True,
       opportunities =
         [\<lparr>opp_outcome = ''Home'', opp_stake = 450359962737049600, opp_price = 2,
           opp_bookmaker = ''BookA''\<rparr>,
          \<lparr>opp_outcome = ''Away'', opp_stake = - 450359962737049472,
           opp_price = - (2 + 1 / 2 ^ 51), opp_bookmaker = ''BookB''\<rparr>],
       guaranteed_profit = 900719925474099072\<rparr>) \<and>
   unrounded_stakes double_arith 100
     [(''Home'', (2, ''BookA'')), (''Away'', (- (2 + 1 / 2 ^ 51), ''BookB''))] =
     [450359962737049600, - 450359962737049472] \<and>
   sum_list (unrounded_stakes double_arith 100
     [(''Home'', (2, ''BookA'')), (''Away'', (- (2 + 1 / 2 ^ 51), ''BookB''))]) = 128"
proof -
  let ?b = "[(''Home'', (2, ''BookA'')), (''Away'', (- (2 + 1 / 2 ^ 51), ''BookB''))]"
  have e: "evaluate double_arith 100 ?b =
     Inr (Some \<lparr>total_prob = 0, is_arbitrage = True,
       opportunities =
         [\<lparr>opp_outcome = ''Home'', opp_stake = 450359962737049600, opp_price = 2,
           opp_bookmaker = ''BookA''\<rparr>,
          \<lparr>opp_outcome = ''Away'', opp_stake = - 450359962737049472,
           opp_price = - (2 + 1 / 2 ^ 51), opp_bookmaker = ''BookB''\<rparr>],
       guaranteed_profit = 900719925474099072\<rparr>)"
    by (simp add: evaluate_defs Let_def) (simp add: rnd53_defs)
  have u: "unrounded_stakes double_arith 100 ?b = [450359962737049600, - 450359962737049472]"
    by (simp add: quantity_defs evaluate_defs) (simp add: rnd53_defs)
  have "sum_list (unrounded_stakes double_arith 100 ?b) = 128" unfolding u by simp
  with e u show ?thesis by simp
qed

text \<open>
  C3, amended. When \<open>evaluate\<close> returns a result whose arbitrage flag is true, the
  unrounded stakes it computed (the list \<open>strokes\<close>, from which the reported stakes are
  rounded) are, for each outcome, its implied probability divided by the aggregate implied
  probability, times the total stake, in float arithmetic. If moreover all prices are
  positive, the operations are accurate to \<open>u\<close> and the sum of the implied probabilities
  to \<open>g\<close>, then the unrounded stakes add up to the total stake within
  \<open>(2 u + u\<^sup>2 + g) / (1 - g)\<close> times its magnitude.
\<close>

theorem stake_allocation:
  assumes "evaluate A S best = Inr (Some r)" and "is_arbitrage r"
  shows "(\<exists>probs. probabilities A best = Inr probs \<and>
            strokes A S (f_sum A probs) best = Inr (unrounded_stakes A S best)) \<and>
         map opp_stake (opportunities r)
           = map (\<lambda>s. f_round A s 2) (unrounded_stakes A S best) \<and>
         (accurate A u \<and> 0 \<le> u \<and> u < 1 \<and> sum_accurate A g best \<and> 0 \<le> g \<and> g < 1 \<and>
          (\<forall>v\<in>set (dict_values best). 0 < fst v) \<longrightarrow>
            \<bar>sum_list (unrounded_stakes A S best) - S\<bar>
              \<le> (2 * u + u\<^sup>2 + g) / (1 - g) * \<bar>S\<bar>)"
proof (intro conjI impI)
  have ne: "best \<noteq> []" and nz: "\<forall>v\<in>set (dict_values best). fst v \<noteq> 0"
    using evaluate_SomeD(1,2) [OF assms(1)] by blast+
  have t0: "implied_sum A best \<noteq> 0" by (rule evaluate_arbitrageD(2) [OF assms])
  obtain ps where r: "r = arbitrage_result A S best ps"
    using evaluate_arbitrageD(3) [OF assms] by blast
  have p: "probabilities A best = Inr (implied_probs A best)"
    using nz by (simp add: probabilities_eq)
  have s: "strokes A S (f_sum A (implied_probs A best)) best = Inr (unrounded_stakes A S best)"
    using strokes_eq [OF ne nz, of A S] t0 by (simp add: implied_sum_def)
  from p s show "\<exists>probs. probabilities A best = Inr probs \<and>
            strokes A S (f_sum A probs) best = Inr (unrounded_stakes A S best)" by blast
  have len: "length (unrounded_stakes A S best) = length best"
    by (simp add: length_unrounded_stakes dict_values_def)
  show "map opp_stake (opportunities r)
          = map (\<lambda>s. f_round A s 2) (unrounded_stakes A S best)"
    unfolding r arbitrage_result_def
    using opp_stake_make_opportunities [OF len] by simp
  assume h: "accurate A u \<and> 0 \<le> u \<and> u < 1 \<and> sum_accurate A g best \<and> 0 \<le> g \<and> g < 1 \<and>
          (\<forall>v\<in>set (dict_values best). 0 < fst v)"
  then have acc: "accurate A u" and u: "0 \<le> u" "u < 1" and g: "sum_accurate A g best"
    and g1: "0 \<le> g" "g < 1" and pos: "\<forall>v\<in>set (dict_values best). 0 < fst v"
    by blast+
  show "\<bar>sum_list (unrounded_stakes A S best) - S\<bar> \<le> (2 * u + u\<^sup>2 + g) / (1 - g) * \<bar>S\<bar>"
    by (rule stakes_sum_error_pos [OF acc u g g1 ne pos])
qed

text \<open>
  C3, amended, on the example in binary64 arithmetic (\<open>u = g = 2 ^ - 53\<close>): the stakes
  are 84.375 and 15.624999999999996, their sum is \<open>100 - 2 ^ - 48\<close>, and the bound is
  about \<open>3.3 \<times> 10 ^ - 14\<close>.
\<close>

theorem stake_allocation_witness:
  "evaluate double_arith 100 example_odds = Inr (Some example_result) \<and>
   is_arbitrage example_result \<and>
   accurate double_arith (1 / 2 ^ 53) \<and> sum_accurate double_arith (1 / 2 ^ 53) example_odds \<and>
   list_all (\<lambda>v. 0 < fst v) (dict_values example_odds) \<and>
   unrounded_stakes double_arith 100 example_odds
     = [84375 / 1000, rnd53 (15624999999999996 / 1000000000000000)] \<and>
   sum_list (unrounded_stakes double_arith 100 example_odds) = 100 - 1 / 2 ^ 48 \<and>
   map opp_stake (opportunities example_result) = [rnd53 (8438 / 100), rnd53 (1562 / 100)] \<and>
   \<bar>sum_list (unrounded_stakes double_arith 100 example_odds) - 100\<bar>
     \<le> (2 * (1 / 2 ^ 53) + (1 / 2 ^ 53)\<^sup>2 + 1 / 2 ^ 53) / (1 - 1 / 2 ^ 53) * \<bar>100\<bar>"
proof -
  have a: "is_arbitrage example_result" by (simp add: example_result_def)
  have g: "sum_accurate double_arith (1 / 2 ^ 53) example_odds"
    unfolding example_odds_def
    by (simp add: quantity_defs evaluate_defs) (simp add: rnd53_defs)
  have p: "\<forall>v\<in>set (dict_values example_odds). 0 < fst v"
    by (simp add: example_odds_def dict_values_def)
  have st: "unrounded_stakes double_arith 100 example_odds
              = [84375 / 1000, rnd53 (15624999999999996 / 1000000000000000)]"
    unfolding example_odds_def
    by (simp add: quantity_defs evaluate_defs) (simp add: rnd53_defs)
  have sm: "sum_list (unrounded_stakes double_arith 100 example_odds) = 100 - 1 / 2 ^ 48"
    unfolding st by (simp add: rnd53_defs)
  have o: "map opp_stake (opportunities example_result) = [rnd53 (8438 / 100), rnd53 (1562 / 100)]"
    by (simp add: example_result_def)
  have h: "accurate double_arith (1 / 2 ^ 53) \<and> (0::real) \<le> 1 / 2 ^ 53 \<and>
      (1::real) / 2 ^ 53 < 1 \<and> sum_accurate double_arith (1 / 2 ^ 53) example_odds \<and>
      (0::real) \<le> 1 / 2 ^ 53 \<and> (1::real) / 2 ^ 53 < 1 \<and>
      (\<forall>v\<in>set (dict_values example_odds). 0 < fst v)"
    using double_arith_accurate g p by simp
  from stake_allocation [OF example_evaluate a, of "1 / 2 ^ 53" "1 / 2 ^ 53"] h
  have b: "\<bar>sum_list (unrounded_stakes double_arith 100 example_odds) - 100\<bar>
     \<le> (2 * (1 / 2 ^ 53) + (1 / 2 ^ 53)\<^sup>2 + 1 / 2 ^ 53) / (1 - 1 / 2 ^ 53) * \<bar>100\<bar>"
    by blast
  have p': "list_all (\<lambda>v. 0 < fst v) (dict_values example_odds)"
    using p by (simp add: list_all_iff)
  from example_evaluate a double_arith_accurate g p' st sm o b show ?thesis by blast
qed

text \<open>
  C4. When the arbitrage flag is true, every price converted to a float, and the reported
  guaranteed profit is the least of the returns (unrounded stake times price) over the
  outcomes, minus the total stake, rounded to two decimal places.
\<close>

theorem guaranteed_profit_value:
  assumes "evaluate A S best = Inr (Some r)" and "is_arbitrage r"
  shows "\<exists>ps. float_prices A best = Inr ps \<and> outcome_returns A S best ps \<noteq> [] \<and>
           guaranteed_profit r
             = f_round A (f_sub A (Min (set (outcome_returns A S best ps))) S) 2"
proof -
  have ne: "best \<noteq> []" by (rule evaluate_SomeD(1) [OF assms(1)])
  obtain ps where fp: "float_prices A best = Inr ps" and r: "r = arbitrage_result A S best ps"
    using evaluate_arbitrageD(3) [OF assms] by blast
  have "guaranteed_profit r
          = f_round A (f_sub A (Min (set (outcome_returns A S best ps))) S) 2"
    unfolding r by (simp add: arbitrage_result_def)
  with fp outcome_returns_nonempty [OF ne fp, of S] show ?thesis by blast
qed

text \<open>
  C4 on the example in binary64 arithmetic: the returns are 421.875 and 421.8749999999999,
  and the profit is 321.87, from the least of them; the first return would give 321.88,
  and the stakes rounded for reporting would give 321.74.
\<close>

theorem guaranteed_profit_value_witness:
  "evaluate double_arith 100 example_odds = Inr (Some example_result) \<and>
   is_arbitrage example_result \<and>
   float_prices double_arith example_odds = Inr [5, 27] \<and>
   outcome_returns double_arith 100 example_odds [5, 27]
     = [421875 / 1000, rnd53 (4218749999999999 / 10000000000000)] \<and>
   f_round double_arith
     (f_sub double_arith (Min (set (outcome_returns double_arith 100 example_odds [5, 27]))) 100) 2
     = rnd53 (32187 / 100) \<and>
   guaranteed_profit example_result = rnd53 (32187 / 100) \<and>
   first_return_profit double_arith 100 example_odds [5, 27] = rnd53 (32188 / 100) \<and>
   rounded_stake_profit double_arith 100 example_odds [5, 27] = rnd53 (32174 / 100) \<and>
   rnd53 (32174 / 100) < rnd53 (32187 / 100) \<and> rnd53 (32187 / 100) < rnd53 (32188 / 100)"
proof -
  have a: "is_arbitrage example_result" by (simp add: example_result_def)
  have g: "guaranteed_profit example_result = rnd53 (32187 / 100)"
    by (simp add: example_result_def)
  have fp: "float_prices double_arith example_odds = Inr [5, 27]"
    unfolding example_odds_def
    by (simp add: quantity_defs evaluate_defs) (simp add: rnd53_defs)
  have rets: "outcome_returns double_arith 100 example_odds [5, 27]
     = [421875 / 1000, rnd53 (4218749999999999 / 10000000000000)]"
    unfolding example_odds_def
    by (simp add: quantity_defs evaluate_defs) (simp add: rnd53_defs)
  from guaranteed_profit_value [OF example_evaluate a] fp g
  have m: "f_round double_arith
     (f_sub double_arith (Min (set (outcome_returns double_arith 100 example_odds [5, 27]))) 100) 2
     = rnd53 (32187 / 100)"
    by auto
  have f: "first_return_profit double_arith 100 example_odds [5, 27] = rnd53 (32188 / 100)"
    unfolding first_return_profit_def rets
    by (simp add: double_arith_def) (simp add: rnd53_defs)
  have rs: "rounded_stake_profit double_arith 100 example_odds [5, 27] = rnd53 (32174 / 100)"
    unfolding example_odds_def
    by (simp add: quantity_defs evaluate_defs) (simp add: rnd53_defs)
  have c: "rnd53 (32174 / 100) < rnd53 (32187 / 100) \<and> rnd53 (32187 / 100) < rnd53 (32188 / 100)"
    by (simp add: rnd53_defs)
  from example_evaluate a fp rets m g f rs c show ?thesis by blast
qed




text \<open>
  C7. \<open>evaluate\<close> returns \<open>None\<close> exactly for the empty mapping; a match with no
  bookmakers, or whose bookmakers all have an empty market list, has an empty best-odds
  mapping and so yields \<open>None\<close>: no exception and no result record.
\<close>

theorem no_data_none:
  "(evaluate A S best = Inr None \<longleftrightarrow> best = []) \<and>
   (bookmakers m = [] \<longrightarrow> evaluate A S (get_best_odds m) = Inr None) \<and>
   ((\<forall>b\<in>set (bookmakers m). markets b = []) \<longrightarrow> evaluate A S (get_best_odds m) = Inr None)"
proof (intro conjI impI)
  show "evaluate A S best = Inr None \<longleftrightarrow> best = []"
  proof
    assume n: "evaluate A S best = Inr None"
    show "best = []"
    proof (rule ccontr)
      assume ne: "best \<noteq> []"
      have "evaluate A S best \<noteq> Inr None"
        by (simp add: evaluate_cases ne split: sum.split)
      with n show False by simp
    qed
  next
    assume "best = []"
    then show "evaluate A S best = Inr None" by (simp add: evaluate_def)
  qed
next
  assume "bookmakers m = []"
  then have "get_best_odds m = []" by (simp add: get_best_odds_def)
  then show "evaluate A S (get_best_odds m) = Inr None" by (simp add: evaluate_def)
next
  assume "\<forall>b\<in>set (bookmakers m). markets b = []"
  then have "get_best_odds m = []"
    unfolding get_best_odds_def by (rule scan_no_markets)
  then show "evaluate A S (get_best_odds m) = Inr None" by (simp add: evaluate_def)
qed

text \<open>C7 on a match without bookmakers, one whose only bookmaker has no market, and the example.\<close>

theorem no_data_none_witness:
  "evaluate double_arith 100 (get_best_odds \<lparr>home_team = ''Arsenal'', away_team = ''Chelsea'',
       commence_time = ''2024-01-01T15:00:00Z'', bookmakers = []\<rparr>) = Inr None \<and>
   evaluate double_arith 100 (get_best_odds \<lparr>home_team = ''Arsenal'', away_team = ''Chelsea'',
       commence_time = ''2024-01-01T15:00:00Z'',
       bookmakers = [\<lparr>title = ''BookA'', markets = []\<rparr>]\<rparr>) = Inr None \<and>
   evaluate double_arith 100 example_odds \<noteq> Inr None"
proof -
  let ?m0 = "\<lparr>home_team = ''Arsenal'', away_team = ''Chelsea'',
       commence_time = ''2024-01-01T15:00:00Z'', bookmakers = []\<rparr>"
  let ?m1 = "\<lparr>home_team = ''Arsenal'', away_team = ''Chelsea'',
       commence_time = ''2024-01-01T15:00:00Z'',
       bookmakers = [\<lparr>title = ''BookA'', markets = []\<rparr>]\<rparr>"
  have h0: "bookmakers ?m0 = []" by simp
  have h1: "\<forall>b\<in>set (bookmakers ?m1). markets b = []" by simp
  have h2: "example_odds \<noteq> []" by (simp add: example_odds_def)
  from no_data_none [of double_arith 100 example_odds ?m0] h0
  have a: "evaluate double_arith 100 (get_best_odds ?m0) = Inr None" by blast
  from no_data_none [of double_arith 100 example_odds ?m1] h1
  have b: "evaluate double_arith 100 (get_best_odds ?m1) = Inr None" by blast
  from no_data_none [of double_arith 100 example_odds ?m0] h2
  have c: "evaluate double_arith 100 example_odds \<noteq> Inr None" by blast
  from a b c show ?thesis by blast
qed

text \<open>
  C8 as stated fails: a negative price is not rejected. For the single price \<open>-2\<close>,
  \<open>evaluate\<close> returns a result with the arbitrage flag set and a profit of \<open>-300\<close> (every
  operation of this run is exact in binary64 arithmetic).
\<close>

theorem negative_price_not_rejected:
  "evaluate double_arith 100 [(''Home'', (- 2, ''BookA''))] =
     Inr (Some \<lparr>total_prob = - 1 / 2, is_arbitrage = True,
                opportunities = [\<lparr>opp_outcome = ''Home'', opp_stake = 100, opp_price = - 2,
                                  opp_bookmaker = ''BookA''\<rparr>],
                guaranteed_profit = - 300\<rparr>)"
  by (simp add: evaluate_defs Let_def) (simp add: rnd53_defs)

text \<open>
  C8, amended. A mapping that contains a price equal to 0 makes \<open>evaluate\<close> raise
  \<^verbatim>\<open>ZeroDivisionError\<close> (from \<open>1 / price\<close>), whatever the total stake; no result is
  returned.
\<close>

theorem zero_price_raises:
  assumes "\<exists>v\<in>set (dict_values best). fst v = 0"
  shows "evaluate A S best = Inl ZeroDivisionError"
proof -
  from assms have "dict_values best \<noteq> []" by auto
  then have "best \<noteq> []" by (auto simp: dict_values_def)
  with assms show ?thesis by (simp add: evaluate_cases)
qed

text \<open>C8, amended, on a mapping with prices 0 and 3.\<close>

theorem zero_price_raises_witness:
  "(\<exists>v\<in>set (dict_values [(''Home'', (0, ''BookA'')), (''Away'', (3, ''BookB''))]). fst v = 0) \<and>
   evaluate double_arith 100 [(''Home'', (0, ''BookA'')), (''Away'', (3, ''BookB''))]
     = Inl ZeroDivisionError"
proof -
  have h: "\<exists>v\<in>set (dict_values [(''Home'', (0::real, ''BookA'')), (''Away'', (3, ''BookB''))]). fst v = 0"
    by (simp add: dict_values_def)
  from zero_price_raises [OF h, of double_arith 100] h show ?thesis by blast
qed

text \<open>
  C10. If \<open>evaluate\<close> returns a result for a mapping with one total stake, it returns a
  result with any other total stake too, and the two results have the same reported
  implied-probability sum and the same arbitrage flag.
\<close>

theorem verdict_independent_of_stake:
  assumes "evaluate A S1 best = Inr (Some r1)"
  shows "\<exists>r2. evaluate A S2 best = Inr (Some r2) \<and> total_prob r2 = total_prob r1 \<and>
              is_arbitrage r2 = is_arbitrage r1"
proof -
  have ne: "best \<noteq> []" and nz: "\<not> (\<exists>v\<in>set (dict_values best). fst v = 0)"
    using evaluate_SomeD(1,2) [OF assms] by blast+
  show ?thesis
  proof (cases "implied_sum A best < 1")
    case True
    from evaluate_SomeD(3) [OF assms True]
    obtain ps where t0: "implied_sum A best \<noteq> 0" and fp: "float_prices A best = Inr ps"
      and r1: "r1 = arbitrage_result A S1 best ps" by blast
    have "evaluate A S2 best = Inr (Some (arbitrage_result A S2 best ps))"
      using ne nz True t0 fp by (simp add: evaluate_cases)
    then show ?thesis unfolding r1 by (simp add: arbitrage_result_def)
  next
    case False
    from evaluate_SomeD(4) [OF assms False] have r1: "r1 = no_arbitrage_result A best" .
    have "evaluate A S2 best = Inr (Some (no_arbitrage_result A best))"
      using ne nz False by (simp add: evaluate_cases)
    then show ?thesis unfolding r1 by simp
  qed
qed

text \<open>C10 on the example in binary64 arithmetic, with total stakes 100 and 250.\<close>

theorem verdict_independent_of_stake_witness:
  "evaluate double_arith 100 example_odds = Inr (Some example_result) \<and>
   (\<exists>r2. evaluate double_arith 250 example_odds = Inr (Some r2) \<and>
         total_prob r2 = rnd53 (237 / 1000) \<and> is_arbitrage r2)"
proof -
  from verdict_independent_of_stake [OF example_evaluate, of 250] example_evaluate
  show ?thesis by (simp add: example_result_def)
qed

section \<open>Claims about Match\<close>

text \<open>
  C9. A payload that lacks any of \<^verbatim>\<open>home_team\<close>, \<^verbatim>\<open>away_team\<close>,
  \<^verbatim>\<open>commence_time\<close> or \<^verbatim>\<open>bookmakers\<close> makes the construction raise
  \<^verbatim>\<open>KeyError\<close> naming the first absent field; no \<open>Match\<close> is produced.
\<close>

theorem missing_field_raises:
  assumes "missing_fields d \<noteq> []"
  shows "Match_init d = Inl (KeyError (hd (missing_fields d)))"
  using assms
  by (cases "home_team_field d"; cases "away_team_field d"; cases "commence_time_field d";
      cases "bookmakers_field d") (simp_all add: missing_fields_def Match_init_def)

text \<open>C9 on a payload without \<^verbatim>\<open>away_team\<close> and \<^verbatim>\<open>bookmakers\<close>.\<close>

theorem missing_field_raises_witness:
  "missing_fields \<lparr>home_team_field = Some ''Arsenal'', away_team_field = None,
      commence_time_field = Some ''2024-01-01T15:00:00Z'', bookmakers_field = None\<rparr>
     = [''away_team'', ''bookmakers''] \<and>
   Match_init \<lparr>home_team_field = Some ''Arsenal'', away_team_field = None,
      commence_time_field = Some ''2024-01-01T15:00:00Z'', bookmakers_field = None\<rparr>
     = Inl (KeyError ''away_team'')"
proof -
  let ?d = "\<lparr>home_team_field = Some ''Arsenal'', away_team_field = None,
      commence_time_field = Some ''2024-01-01T15:00:00Z'', bookmakers_field = None\<rparr>"
  have m: "missing_fields ?d = [''away_team'', ''bookmakers'']"
    by (simp add: missing_fields_def)
  then have h: "missing_fields ?d \<noteq> []" by simp
  from missing_field_raises [OF h] m show ?thesis by simp
qed

end
